theory Spec2Isabelle
  imports Main "HOL-Library.Word"
begin

section \<open>The ring queue of queue.h and queue.c\<close>

text \<open>
  The capacity \<open>QUEUE_MAX_LENGTH\<close> is a compile-time macro (10 by default, 5 in the
  tests), so every operation takes it as the parameter \<open>N\<close>. It is an \<open>int\<close> constant
  of the C program: the theorems assume \<open>0 < N\<close> and \<open>N < 2 ^ 31\<close>, where the
  conversion of \<open>QUEUE_MAX_LENGTH\<close> to \<open>unsigned\<close> keeps its value. The fields
  \<open>begin\<close> and \<open>size\<close> are \<open>unsigned\<close> (32 bits, arithmetic wraps), the stored values
  are \<open>uint32_t\<close>. The field names carry the prefix \<open>q_\<close> because \<open>begin\<close> and \<open>size\<close>
  are taken in Isabelle.
\<close>

type_synonym u32 = "32 word"

record Queue =
  q_begin :: u32
  q_size :: u32
  q_array :: "u32 list"

text \<open>
  A failed \<open>assert\<close> aborts the process: the call does not return. The assertions
  are compiled in, as the build lines of cli.c and queue-test.c have it (no
  \<open>NDEBUG\<close>). A store outside an allocated block is a heap overflow: from there on
  the behaviour of the program is undefined, and the run has no result.
\<close>

datatype crash = AssertFailed | HeapOverflow

definition queue_init :: "nat \<Rightarrow> Queue" where
  "queue_init N = \<lparr>q_begin = 0, q_size = 0, q_array = replicate N 0\<rparr>"

text \<open>Functions with an \<open>int\<close> status return it first; messages on stderr are left out.\<close>

definition queue_push_back :: "nat \<Rightarrow> Queue \<Rightarrow> u32 \<Rightarrow> int \<times> Queue" where
  "queue_push_back N queue v =
     (if unat (q_size queue) = N then (- 1, queue)
      else
        let b = (if q_begin queue = 0 then of_nat (N - 1) else q_begin queue - 1)
        in (0, queue\<lparr>q_begin := b,
                     q_array := (q_array queue)[unat b := v],
                     q_size := q_size queue + 1\<rparr>))"

text \<open>
  The out-parameter \<open>*value\<close> is the third component: \<open>Some v\<close> when the call stored
  \<open>v\<close> there, \<open>None\<close> when it left it alone.
\<close>

definition queue_pop_back :: "nat \<Rightarrow> Queue \<Rightarrow> int \<times> Queue \<times> u32 option" where
  "queue_pop_back N queue =
     (if q_size queue = 0 then (- 1, queue, None)
      else
        let v = q_array queue ! unat (q_begin queue);
            b = (if unat (q_begin queue) = N - 1 then 0 else q_begin queue + 1)
        in (0, queue\<lparr>q_begin := b, q_size := q_size queue - 1\<rparr>, Some v))"

definition queue_get_value :: "nat \<Rightarrow> Queue \<Rightarrow> u32 \<Rightarrow> crash + u32" where
  "queue_get_value N queue index =
     (if index < q_size queue
      then Inr (q_array queue ! (unat (q_begin queue + index) mod N))
      else Inl AssertFailed)"

definition queue_pop_front :: "nat \<Rightarrow> Queue \<Rightarrow> crash + (int \<times> Queue \<times> u32 option)" where
  "queue_pop_front N queue =
     (if q_size queue = 0 then Inr (- 1, queue, None)
      else case queue_get_value N queue (q_size queue - 1) of
             Inl e \<Rightarrow> Inl e
           | Inr v \<Rightarrow> Inr (0, queue\<lparr>q_size := q_size queue - 1\<rparr>, Some v))"

text \<open>
  The loops count an \<open>unsigned\<close> up until it equals the bound; the distance to the
  bound, read modulo \<open>2 ^ 32\<close>, goes down by one each round.
\<close>

function find_loop :: "nat \<Rightarrow> Queue \<Rightarrow> u32 \<Rightarrow> u32 \<Rightarrow> crash + (int \<times> u32 option)" where
  "find_loop N queue v i =
     (if i = q_size queue then Inr (- 1, None)
      else case queue_get_value N queue i of
             Inl e \<Rightarrow> Inl e
           | Inr x \<Rightarrow> if x = v then Inr (0, Some i) else find_loop N queue v (i + 1))"
  by pat_completeness auto
termination
proof (relation "measure (\<lambda>(N, queue, v, i). unat (q_size queue - i))")
  show "wf (measure (\<lambda>(N, queue, v, i). unat (q_size queue - i)))" by simp
next
  fix N :: nat and queue :: Queue and v i x :: u32
  assume "i \<noteq> q_size queue"
  then have nz: "q_size queue - i \<noteq> 0" by simp
  have eq: "q_size queue - (i + 1) = (q_size queue - i) - 1" by simp
  have "\<And>x :: u32. x \<noteq> 0 \<Longrightarrow> unat (x - 1) < unat x"
    by (simp add: unat_minus_one unat_gt_0)
  from this [OF nz] show "((N, queue, v, i + 1), (N, queue, v, i))
      \<in> measure (\<lambda>(N, queue, v, i). unat (q_size queue - i))"
    by (simp only: eq in_measure case_prod_conv)
qed

definition queue_find :: "nat \<Rightarrow> Queue \<Rightarrow> u32 \<Rightarrow> crash + (int \<times> u32 option)" where
  "queue_find N queue v = find_loop N queue v 0"

text \<open>The loop of \<open>queue_remove\<close>; \<open>ii\<close> is the counter \<open>_i\<close> of the source.\<close>

function remove_loop :: "nat \<Rightarrow> u32 \<Rightarrow> u32 \<Rightarrow> u32 list \<Rightarrow> u32 list" where
  "remove_loop N stop ii arr =
     (if ii = stop then arr
      else
        let i = unat ii mod N
        in remove_loop N stop (ii + 1) (arr[i := arr ! (unat (ii + 1) mod N)]))"
  by pat_completeness auto
termination
proof (relation "measure (\<lambda>(N, stop, ii, arr). unat (stop - ii))")
  show "wf (measure (\<lambda>(N, stop, ii, arr). unat (stop - ii)))" by simp
next
  fix N :: nat and stop ii :: u32 and arr :: "u32 list" and i :: nat
  assume "ii \<noteq> stop"
  then have nz: "stop - ii \<noteq> 0" by simp
  have eq: "stop - (ii + 1) = (stop - ii) - 1" by simp
  have "\<And>x :: u32. x \<noteq> 0 \<Longrightarrow> unat (x - 1) < unat x"
    by (simp add: unat_minus_one unat_gt_0)
  from this [OF nz] show "((N, stop, ii + 1, arr[i := arr ! (unat (ii + 1) mod N)]), (N, stop, ii, arr))
      \<in> measure (\<lambda>(N, stop, ii, arr). unat (stop - ii))"
    by (simp only: eq in_measure case_prod_conv)
qed

definition queue_remove :: "nat \<Rightarrow> Queue \<Rightarrow> u32 \<Rightarrow> crash + Queue" where
  "queue_remove N queue index =
     (if \<not> index < q_size queue then Inl AssertFailed
      else
        let queue1 = queue\<lparr>q_size := q_size queue - 1\<rparr>
        in Inr (queue1\<lparr>q_array :=
                  remove_loop N (q_begin queue1 + q_size queue1) (q_begin queue1 + index)
                    (q_array queue1)\<rparr>))"


subsection \<open>The scratch buffer of \<open>queue_merge\<close>\<close>

text \<open>
  \<open>malloc n\<close> is a block of \<open>n\<close> bytes. It is addressed as an array of \<open>uint32_t\<close>
  cells of \<open>sizeof (uint32_t) = 4\<close> bytes each, and \<open>cell_in_block\<close> says whether the
  four bytes of a cell lie inside the block. A cell never stored holds what the
  allocator left there, the parameter \<open>junk\<close>. The source does not test the result of
  \<open>malloc\<close> against \<open>NULL\<close>; the model takes the allocation to succeed.

  The compiled code checks no bound. \<open>store\<close> records a store whatever its index
  (latest first): it gives the data flow the source intends, as if every cell it
  addresses were there. \<open>store_checked\<close> is the store of the C abstract machine: outside
  the block it is a heap overflow. \<open>queue_merge\<close> is built on the first,
  \<open>queue_merge_checked\<close> on the second; what the program is entitled to do is the
  second.
\<close>

record block =
  blk_bytes :: nat
  blk_cells :: "(nat \<times> u32) list"

definition malloc :: "nat \<Rightarrow> block" where
  "malloc n = \<lparr>blk_bytes = n, blk_cells = []\<rparr>"

definition store :: "block \<Rightarrow> nat \<Rightarrow> u32 \<Rightarrow> block" where
  "store blk k v = blk\<lparr>blk_cells := (k, v) # blk_cells blk\<rparr>"

definition load :: "(nat \<Rightarrow> u32) \<Rightarrow> block \<Rightarrow> nat \<Rightarrow> u32" where
  "load junk blk k = (case map_of (blk_cells blk) k of Some v \<Rightarrow> v | None \<Rightarrow> junk k)"

definition cell_in_block :: "block \<Rightarrow> nat \<Rightarrow> bool" where
  "cell_in_block blk k = (4 * k + 4 \<le> blk_bytes blk)"

definition store_checked :: "block \<Rightarrow> nat \<Rightarrow> u32 \<Rightarrow> crash + block" where
  "store_checked blk k v = (if cell_in_block blk k then Inr (store blk k v) else Inl HeapOverflow)"

text \<open>
  \<open>memcpy dst doff src soff n\<close> copies \<open>n\<close> cells from \<open>src + soff\<close> to \<open>dst + doff\<close>
  (both ranges inside their arrays).
\<close>

definition memcpy :: "u32 list \<Rightarrow> nat \<Rightarrow> u32 list \<Rightarrow> nat \<Rightarrow> nat \<Rightarrow> u32 list" where
  "memcpy dst doff src soff n = take doff dst @ take n (drop soff src) @ drop (doff + n) dst"

text \<open>First loop of \<open>queue_merge\<close>: \<open>n\<close> is \<open>min_queue->size\<close>.\<close>

function merge_interleave ::
  "nat \<Rightarrow> Queue \<Rightarrow> Queue \<Rightarrow> u32 \<Rightarrow> u32 \<Rightarrow> block \<Rightarrow> crash + block" where
  "merge_interleave N queue_into queue2 n i blk =
     (if i = n then Inr blk
      else case queue_get_value N queue_into i of
             Inl e \<Rightarrow> Inl e
           | Inr a \<Rightarrow>
               (case queue_get_value N queue2 i of
                  Inl e \<Rightarrow> Inl e
                | Inr b \<Rightarrow>
                    merge_interleave N queue_into queue2 n (i + 1)
                      (store (store blk (unat (2 * i)) a) (unat (2 * i + 1)) b)))"
  by pat_completeness auto
termination
proof (relation "measure (\<lambda>(N, queue_into, queue2, n, i, blk). unat (n - i))")
  show "wf (measure (\<lambda>(N, queue_into, queue2, n, i, blk). unat (n - i)))" by simp
next
  fix N :: nat and queue_into queue2 :: Queue and n i a b :: u32 and blk :: block
  assume "i \<noteq> n"
  then have nz: "n - i \<noteq> 0" by simp
  have eq: "n - (i + 1) = (n - i) - 1" by simp
  have "\<And>x :: u32. x \<noteq> 0 \<Longrightarrow> unat (x - 1) < unat x"
    by (simp add: unat_minus_one unat_gt_0)
  from this [OF nz] show "((N, queue_into, queue2, n, i + 1,
        store (store blk (unat (2 * i)) a) (unat (2 * i + 1)) b),
       (N, queue_into, queue2, n, i, blk))
      \<in> measure (\<lambda>(N, queue_into, queue2, n, i, blk). unat (n - i))"
    by (simp only: eq in_measure case_prod_conv)
qed

text \<open>Second loop: \<open>m\<close> is \<open>min_queue->size\<close>, \<open>n\<close> is \<open>max_queue->size\<close>.\<close>

function merge_tail ::
  "nat \<Rightarrow> Queue \<Rightarrow> u32 \<Rightarrow> u32 \<Rightarrow> u32 \<Rightarrow> block \<Rightarrow> crash + block" where
  "merge_tail N max_queue m n i blk =
     (if i = n then Inr blk
      else case queue_get_value N max_queue i of
             Inl e \<Rightarrow> Inl e
           | Inr a \<Rightarrow> merge_tail N max_queue m n (i + 1) (store blk (unat (m + i)) a))"
  by pat_completeness auto
termination
proof (relation "measure (\<lambda>(N, max_queue, m, n, i, blk). unat (n - i))")
  show "wf (measure (\<lambda>(N, max_queue, m, n, i, blk). unat (n - i)))" by simp
next
  fix N :: nat and max_queue :: Queue and m n i a :: u32 and blk :: block
  assume "i \<noteq> n"
  then have nz: "n - i \<noteq> 0" by simp
  have eq: "n - (i + 1) = (n - i) - 1" by simp
  have "\<And>x :: u32. x \<noteq> 0 \<Longrightarrow> unat (x - 1) < unat x"
    by (simp add: unat_minus_one unat_gt_0)
  from this [OF nz] show "((N, max_queue, m, n, i + 1, store blk (unat (m + i)) a),
       (N, max_queue, m, n, i, blk))
      \<in> measure (\<lambda>(N, max_queue, m, n, i, blk). unat (n - i))"
    by (simp only: eq in_measure case_prod_conv)
qed

text \<open>
  Lines 80 to 93 of queue.c: the assertion, the allocation \<open>malloc(total_len)\<close> and the
  two loops that fill the block.
\<close>

definition merge_fill :: "nat \<Rightarrow> Queue \<Rightarrow> Queue \<Rightarrow> crash + block" where
  "merge_fill N queue_into queue2 =
     (let total_len = q_size queue_into + q_size queue2
      in if \<not> unat total_len \<le> N then Inl AssertFailed
         else
           let min_queue = (if q_size queue_into < q_size queue2 then queue_into else queue2);
               max_queue = (if q_size queue_into \<ge> q_size queue2 then queue_into else queue2);
               new_queue_array = malloc (unat total_len)
           in case merge_interleave N queue_into queue2 (q_size min_queue) 0 new_queue_array of
                Inl e \<Rightarrow> Inl e
              | Inr blk \<Rightarrow>
                  merge_tail N max_queue (q_size min_queue) (q_size max_queue)
                    (q_size min_queue) blk)"

text \<open>
  The two queues are two objects (the callers pass \<open>&queues[0]\<close> and \<open>&queues[1]\<close>);
  the result is the pair of both after the call.
\<close>

definition queue_merge ::
  "nat \<Rightarrow> (nat \<Rightarrow> u32) \<Rightarrow> Queue \<Rightarrow> Queue \<Rightarrow> crash + (Queue \<times> Queue)" where
  "queue_merge N junk queue_into queue2 =
     (let total_len = q_size queue_into + q_size queue2
      in case merge_fill N queue_into queue2 of
           Inl e \<Rightarrow> Inl e
         | Inr new_queue_array \<Rightarrow>
             Inr (queue_into\<lparr>q_begin := 0, q_size := total_len,
                    q_array := memcpy (q_array queue_into) 0
                      (map (load junk new_queue_array) [0..<unat total_len]) 0
                      (unat total_len)\<rparr>,
                  queue2\<lparr>q_size := 0\<rparr>))"

text \<open>
  The same function with every store to the scratch block checked against the size
  of the block, statement by statement in the order of the source: in each round of
  the first loop the value of \<open>queue_into\<close> is fetched and stored, then the value of
  \<open>queue2\<close>.
\<close>

function merge_interleave_checked ::
  "nat \<Rightarrow> Queue \<Rightarrow> Queue \<Rightarrow> u32 \<Rightarrow> u32 \<Rightarrow> block \<Rightarrow> crash + block" where
  "merge_interleave_checked N queue_into queue2 n i blk =
     (if i = n then Inr blk
      else case queue_get_value N queue_into i of
             Inl e \<Rightarrow> Inl e
           | Inr a \<Rightarrow>
               (case store_checked blk (unat (2 * i)) a of
                  Inl e \<Rightarrow> Inl e
                | Inr blk1 \<Rightarrow>
                    (case queue_get_value N queue2 i of
                       Inl e \<Rightarrow> Inl e
                     | Inr b \<Rightarrow>
                         (case store_checked blk1 (unat (2 * i + 1)) b of
                            Inl e \<Rightarrow> Inl e
                          | Inr blk2 \<Rightarrow>
                              merge_interleave_checked N queue_into queue2 n (i + 1) blk2))))"
  by pat_completeness auto
termination
proof (relation "measure (\<lambda>(N, queue_into, queue2, n, i, blk). unat (n - i))")
  show "wf (measure (\<lambda>(N, queue_into, queue2, n, i, blk). unat (n - i)))" by simp
next
  fix N :: nat and queue_into queue2 :: Queue and n i :: u32 and blk2 :: block
  assume "i \<noteq> n"
  then have nz: "n - i \<noteq> 0" by simp
  have eq: "n - (i + 1) = (n - i) - 1" by simp
  have "\<And>x :: u32. x \<noteq> 0 \<Longrightarrow> unat (x - 1) < unat x"
    by (simp add: unat_minus_one unat_gt_0)
  from this [OF nz] show "((N, queue_into, queue2, n, i + 1, blk2),
       (N, queue_into, queue2, n, i, blk))
      \<in> measure (\<lambda>(N, queue_into, queue2, n, i, blk). unat (n - i))" for blk
    by (simp only: eq in_measure case_prod_conv)
qed

function merge_tail_checked ::
  "nat \<Rightarrow> Queue \<Rightarrow> u32 \<Rightarrow> u32 \<Rightarrow> u32 \<Rightarrow> block \<Rightarrow> crash + block" where
  "merge_tail_checked N max_queue m n i blk =
     (if i = n then Inr blk
      else case queue_get_value N max_queue i of
             Inl e \<Rightarrow> Inl e
           | Inr a \<Rightarrow>
               (case store_checked blk (unat (m + i)) a of
                  Inl e \<Rightarrow> Inl e
                | Inr blk1 \<Rightarrow> merge_tail_checked N max_queue m n (i + 1) blk1))"
  by pat_completeness auto
termination
proof (relation "measure (\<lambda>(N, max_queue, m, n, i, blk). unat (n - i))")
  show "wf (measure (\<lambda>(N, max_queue, m, n, i, blk). unat (n - i)))" by simp
next
  fix N :: nat and max_queue :: Queue and m n i :: u32 and blk1 :: block
  assume "i \<noteq> n"
  then have nz: "n - i \<noteq> 0" by simp
  have eq: "n - (i + 1) = (n - i) - 1" by simp
  have "\<And>x :: u32. x \<noteq> 0 \<Longrightarrow> unat (x - 1) < unat x"
    by (simp add: unat_minus_one unat_gt_0)
  from this [OF nz] show "((N, max_queue, m, n, i + 1, blk1), (N, max_queue, m, n, i, blk))
      \<in> measure (\<lambda>(N, max_queue, m, n, i, blk). unat (n - i))" for blk
    by (simp only: eq in_measure case_prod_conv)
qed

definition merge_fill_checked :: "nat \<Rightarrow> Queue \<Rightarrow> Queue \<Rightarrow> crash + block" where
  "merge_fill_checked N queue_into queue2 =
     (let total_len = q_size queue_into + q_size queue2
      in if \<not> unat total_len \<le> N then Inl AssertFailed
         else
           let min_queue = (if q_size queue_into < q_size queue2 then queue_into else queue2);
               max_queue = (if q_size queue_into \<ge> q_size queue2 then queue_into else queue2);
               new_queue_array = malloc (unat total_len)
           in case merge_interleave_checked N queue_into queue2 (q_size min_queue) 0
                     new_queue_array of
                Inl e \<Rightarrow> Inl e
              | Inr blk \<Rightarrow>
                  merge_tail_checked N max_queue (q_size min_queue) (q_size max_queue)
                    (q_size min_queue) blk)"

definition queue_merge_checked ::
  "nat \<Rightarrow> (nat \<Rightarrow> u32) \<Rightarrow> Queue \<Rightarrow> Queue \<Rightarrow> crash + (Queue \<times> Queue)" where
  "queue_merge_checked N junk queue_into queue2 =
     (let total_len = q_size queue_into + q_size queue2
      in case merge_fill_checked N queue_into queue2 of
           Inl e \<Rightarrow> Inl e
         | Inr new_queue_array \<Rightarrow>
             Inr (queue_into\<lparr>q_begin := 0, q_size := total_len,
                    q_array := memcpy (q_array queue_into) 0
                      (map (load junk new_queue_array) [0..<unat total_len]) 0
                      (unat total_len)\<rparr>,
                  queue2\<lparr>q_size := 0\<rparr>))"

definition queue_copy_to :: "nat \<Rightarrow> Queue \<Rightarrow> u32 list \<Rightarrow> u32 list" where
  "queue_copy_to N queue destination =
     (if unat (q_begin queue + q_size queue) \<le> N
      then memcpy destination 0 (q_array queue) (unat (q_begin queue)) (unat (q_size queue))
      else
        let first_portion_len = of_nat N - q_begin queue;
            second_portion_len = q_size queue + q_begin queue - of_nat N
        in memcpy
             (memcpy destination 0 (q_array queue) (unat (q_begin queue))
                (unat first_portion_len))
             (unat first_portion_len) (q_array queue) 0 (unat second_portion_len))"

section \<open>The command layer (cli.c, configure.h)\<close>

text \<open>
  \<open>QUEUE_MODE\<close> is a macro too, \<open>QUEUE_MODE_LIFO\<close> unless the build sets it. The C
  library's \<open>strtol\<close> is the parameter \<open>strtol\<close>; its \<open>long\<close> result is cut to
  \<open>int\<close>. The two queues \<open>queues[2]\<close> are a list of two. Of \<open>cli_dequeue\<close> the third
  component is the value given to \<open>printf\<close>, when one is printed.
\<close>

datatype queue_mode = QUEUE_MODE_FIFO | QUEUE_MODE_LIFO

definition QUEUE_MODE :: queue_mode where
  "QUEUE_MODE = QUEUE_MODE_LIFO"

definition cli_get_queue_number :: "(string \<Rightarrow> int) \<Rightarrow> string \<Rightarrow> int" where
  "cli_get_queue_number strtol arg =
     (let queue_number = sint (word_of_int (strtol arg) :: 32 word)
      in if queue_number \<noteq> 1 \<and> queue_number \<noteq> 2 then - 1 else queue_number - 1)"

definition cli_dequeue ::
  "queue_mode \<Rightarrow> nat \<Rightarrow> (string \<Rightarrow> int) \<Rightarrow> int \<Rightarrow> string list \<Rightarrow> Queue list
     \<Rightarrow> crash + (int \<times> Queue list \<times> u32 option)" where
  "cli_dequeue mode N strtol argc argv queues =
     (if argc < 2 then Inr (- 1, queues, None)
      else
        let queue_number = cli_get_queue_number strtol (argv ! 1)
        in if queue_number = - 1 then Inr (- 1, queues, None)
           else
             let queue = queues ! nat queue_number
             in case (case mode of
                        QUEUE_MODE_FIFO \<Rightarrow> Inr (queue_pop_back N queue)
                      | QUEUE_MODE_LIFO \<Rightarrow> queue_pop_front N queue) of
                  Inl e \<Rightarrow> Inl e
                | Inr (rc, queue', v) \<Rightarrow>
                    if rc = - 1 then Inr (- 1, queues[nat queue_number := queue'], None)
                    else Inr (0, queues[nat queue_number := queue'], v))"


section \<open>The logical sequence and the invariant\<close>

text \<open>
  The logical element at offset \<open>i\<close> lives in the slot \<open>(begin + i) mod N\<close>;
  \<open>logical\<close> lists the offsets \<open>0\<close> to \<open>size - 1\<close>. \<open>queue_ok\<close> is the invariant of
  the data model together with the length that the type of \<open>array\<close> fixes.
\<close>

definition logical :: "nat \<Rightarrow> Queue \<Rightarrow> u32 list" where
  "logical N q = map (\<lambda>i. q_array q ! ((unat (q_begin q) + i) mod N)) [0..<unat (q_size q)]"

definition queue_ok :: "nat \<Rightarrow> Queue \<Rightarrow> bool" where
  "queue_ok N q \<longleftrightarrow> unat (q_begin q) < N \<and> unat (q_size q) \<le> N \<and> length (q_array q) = N"

section \<open>Scenarios of the specification\<close>

text \<open>Pushing a list of values in order, keeping every status.\<close>

fun push_all :: "nat \<Rightarrow> Queue \<Rightarrow> u32 list \<Rightarrow> int list \<times> Queue" where
  "push_all N q [] = ([], q)"
| "push_all N q (v # vs) =
     (let (rc, q1) = queue_push_back N q v;
          (rcs, q2) = push_all N q1 vs
      in (rc # rcs, q2))"

text \<open>Calling \<open>queue_pop_back\<close> \<open>k\<close> times, keeping every status and value.\<close>

fun pop_back_times :: "nat \<Rightarrow> Queue \<Rightarrow> nat \<Rightarrow> (int \<times> u32 option) list \<times> Queue" where
  "pop_back_times N q 0 = ([], q)"
| "pop_back_times N q (Suc k) =
     (let (rc, q1, out) = queue_pop_back N q;
          (rs, q2) = pop_back_times N q1 k
      in ((rc, out) # rs, q2))"

text \<open>
  Calling \<open>queue_pop_front\<close> \<open>k\<close> times, keeping every status and value and the
  \<open>begin\<close> the call left behind.
\<close>

fun pop_front_times ::
  "nat \<Rightarrow> Queue \<Rightarrow> nat \<Rightarrow> crash + ((int \<times> u32 option \<times> u32) list \<times> Queue)" where
  "pop_front_times N q 0 = Inr ([], q)"
| "pop_front_times N q (Suc k) =
     (case queue_pop_front N q of
        Inl e \<Rightarrow> Inl e
      | Inr (rc, q1, out) \<Rightarrow>
          (case pop_front_times N q1 k of
             Inl e \<Rightarrow> Inl e
           | Inr (rs, q2) \<Rightarrow> Inr ((rc, out, q_begin q1) # rs, q2)))"

text \<open>
  A push/pop history, run on the ring queue and on the reference deque of the
  specification: a plain list whose head is the back (offset 0), bounded by \<open>N\<close>.
\<close>

datatype deque_op = Push u32 | PopBack | PopFront

fun ring_step :: "nat \<Rightarrow> Queue \<Rightarrow> deque_op \<Rightarrow> crash + Queue" where
  "ring_step N q (Push v) = Inr (snd (queue_push_back N q v))"
| "ring_step N q PopBack = Inr (fst (snd (queue_pop_back N q)))"
| "ring_step N q PopFront =
     (case queue_pop_front N q of Inl e \<Rightarrow> Inl e | Inr (rc, q', out) \<Rightarrow> Inr q')"

fun ring_run :: "nat \<Rightarrow> Queue \<Rightarrow> deque_op list \<Rightarrow> crash + Queue" where
  "ring_run N q [] = Inr q"
| "ring_run N q (x # xs) =
     (case ring_step N q x of Inl e \<Rightarrow> Inl e | Inr q' \<Rightarrow> ring_run N q' xs)"

fun ref_step :: "nat \<Rightarrow> u32 list \<Rightarrow> deque_op \<Rightarrow> u32 list" where
  "ref_step N xs (Push v) = (if length xs = N then xs else v # xs)"
| "ref_step N xs PopBack = tl xs"
| "ref_step N xs PopFront = butlast xs"

fun ref_run :: "nat \<Rightarrow> u32 list \<Rightarrow> deque_op list \<Rightarrow> u32 list" where
  "ref_run N xs [] = xs"
| "ref_run N xs (x # ops) = ref_run N (ref_step N xs x) ops"

text \<open>
  The merged sequence of the specification: for each offset below the smaller size the
  element of \<open>self\<close>, then the element of \<open>other\<close>; then what is left of the longer
  queue.
\<close>

definition zipped :: "nat \<Rightarrow> Queue \<Rightarrow> Queue \<Rightarrow> u32 list" where
  "zipped N self other =
     concat (map (\<lambda>k. [logical N self ! k, logical N other ! k])
               [0..<min (unat (q_size self)) (unat (q_size other))])
     @ drop (min (unat (q_size self)) (unat (q_size other)))
         (if unat (q_size other) \<le> unat (q_size self) then logical N self
          else logical N other)"

text \<open>
  The states a queue can reach from \<open>queue_init\<close> by calls of the engine. A call of
  \<open>queue_remove\<close> or \<open>queue_merge\<close> whose assertion fails does not return, so it
  reaches no state; \<open>queue_find\<close> takes a \<open>const\<close> queue and leaves it as it is.
  The merge rules take the unchecked \<open>queue_merge\<close>, which returns on every pair
  inside the precondition: no state that a run can reach is left out.
\<close>

inductive reachable :: "nat \<Rightarrow> Queue \<Rightarrow> bool" for N :: nat where
  init: "reachable N (queue_init N)"
| push_back: "reachable N q \<Longrightarrow> queue_push_back N q v = (rc, q') \<Longrightarrow> reachable N q'"
| pop_back: "reachable N q \<Longrightarrow> queue_pop_back N q = (rc, q', out) \<Longrightarrow> reachable N q'"
| pop_front: "reachable N q \<Longrightarrow> queue_pop_front N q = Inr (rc, q', out) \<Longrightarrow> reachable N q'"
| find: "reachable N q \<Longrightarrow> queue_find N q v = Inr r \<Longrightarrow> reachable N q"
| remove: "reachable N q \<Longrightarrow> index < q_size q \<Longrightarrow> queue_remove N q index = Inr q'
     \<Longrightarrow> reachable N q'"
| merge_into: "reachable N a \<Longrightarrow> reachable N b \<Longrightarrow> unat (q_size a) + unat (q_size b) \<le> N
     \<Longrightarrow> queue_merge N junk a b = Inr (a', b') \<Longrightarrow> reachable N a'"
| merge_from: "reachable N a \<Longrightarrow> reachable N b \<Longrightarrow> unat (q_size a) + unat (q_size b) \<le> N
     \<Longrightarrow> queue_merge N junk a b = Inr (a', b') \<Longrightarrow> reachable N b'"

text \<open>
  The queues of queue-test.c (built there with \<open>QUEUE_MAX_LENGTH = 5\<close>):
  \<open>make_initial\<close> holds 1, 2, 3, 4 from slot 3 on, wrapping; \<open>make_initial2\<close> gives
  1, 3, 5 and 2, 4 from slot 0. \<open>zero_junk\<close> is a scratch block of zeros.
\<close>

definition make_initial :: Queue where
  "make_initial = \<lparr>q_begin = 3, q_size = 4, q_array = [3, 4, 0, 1, 2]\<rparr>"

definition queue_135 :: Queue where
  "queue_135 = \<lparr>q_begin = 0, q_size = 3, q_array = [1, 3, 5, 0, 0]\<rparr>"

definition queue_24 :: Queue where
  "queue_24 = \<lparr>q_begin = 0, q_size = 2, q_array = [2, 4, 0, 0, 0]\<rparr>"

text \<open>\<open>make_initial\<close> after the call \<open>queue_remove(&queue, 3)\<close> of \<open>test_remove\<close>.\<close>

definition make_initial_less_4 :: Queue where
  "make_initial_less_4 = \<lparr>q_begin = 3, q_size = 3, q_array = [3, 4, 0, 1, 2]\<rparr>"

definition zero_junk :: "nat \<Rightarrow> u32" where
  "zero_junk k = 0"

text \<open>What \<open>strtol\<close> gives on the arguments \<open>1\<close> and \<open>2\<close>, and 0 elsewhere.\<close>

definition strtol_digit :: "string \<Rightarrow> int" where
  "strtol_digit arg = (if arg = ''1'' then 1 else if arg = ''2'' then 2 else 0)"

text \<open>The loops are unfolded one round at a time, by hand.\<close>

declare find_loop.simps [simp del]
declare remove_loop.simps [simp del]
declare merge_interleave.simps [simp del]
declare merge_tail.simps [simp del]
declare merge_interleave_checked.simps [simp del]
declare merge_tail_checked.simps [simp del]

section \<open>Word arithmetic inside the capacity\<close>

lemma mod_lt_twice: "x < 2 * N \<Longrightarrow> x mod N = (if x < N then x else x - (N::nat))"
  by (simp add: mod_if)

lemma unat_add_small:
  "unat (a :: u32) < 2 ^ 31 \<Longrightarrow> unat (b :: u32) < 2 ^ 31 \<Longrightarrow> unat (a + b) = unat a + unat b"
  by (simp add: unat_add_lem [THEN iffD1])

lemma unat_pred: "(x :: u32) \<noteq> 0 \<Longrightarrow> unat (x - 1) = unat x - 1"
  by (simp add: unat_minus_one)

lemma unat_succ: "unat (x :: u32) < 2 ^ 31 \<Longrightarrow> unat (x + 1) = unat x + 1"
  using unat_add_small [of x 1] by simp

lemma unat_of_nat_small: "n < 2 ^ 32 \<Longrightarrow> unat (of_nat n :: u32) = n"
  by (simp add: unat_of_nat)

section \<open>The logical sequence under push and pop\<close>

lemma length_logical: "length (logical N q) = unat (q_size q)"
  by (simp add: logical_def)

lemma nth_logical:
  "i < unat (q_size q) \<Longrightarrow> logical N q ! i = q_array q ! ((unat (q_begin q) + i) mod N)"
  by (simp add: logical_def)

lemma logical_empty: "q_size q = 0 \<Longrightarrow> logical N q = []"
  by (simp add: logical_def)

lemma queue_get_value_ok:
  assumes "queue_ok N q" "N < 2 ^ 31" "index < q_size q"
  shows "queue_get_value N q index = Inr (logical N q ! unat index)"
proof -
  have i: "unat index < unat (q_size q)" using assms(3) by (simp add: word_less_nat_alt)
  have "unat (q_begin q) < 2 ^ 31" "unat index < 2 ^ 31"
    using assms(1,2) i by (auto simp: queue_ok_def)
  then have "unat (q_begin q + index) = unat (q_begin q) + unat index"
    by (rule unat_add_small)
  then show ?thesis using assms(3) i by (simp add: queue_get_value_def nth_logical)
qed

lemma queue_push_back_full:
  "unat (q_size q) = N \<Longrightarrow> queue_push_back N q v = (- 1, q)"
  by (simp add: queue_push_back_def)

lemma queue_push_back_ok:
  assumes ok: "queue_ok N q" and N: "0 < N" "N < 2 ^ 31" and room: "unat (q_size q) \<noteq> N"
  shows "fst (queue_push_back N q v) = 0"
    and "queue_ok N (snd (queue_push_back N q v))"
    and "logical N (snd (queue_push_back N q v)) = v # logical N q"
proof -
  define b where "b = (if q_begin q = 0 then of_nat (N - 1) else q_begin q - 1 :: u32)"
  define q' where "q' = q\<lparr>q_begin := b, q_array := (q_array q)[unat b := v], q_size := q_size q + 1\<rparr>"
  have res: "queue_push_back N q v = (0, q')"
    using room by (simp add: queue_push_back_def b_def q'_def Let_def)
  have bN: "unat (q_begin q) < N" and sN: "unat (q_size q) < N" and len: "length (q_array q) = N"
    using ok room by (auto simp: queue_ok_def)
  have ub: "unat b = (if unat (q_begin q) = 0 then N - 1 else unat (q_begin q) - 1)"
  proof (cases "q_begin q = 0")
    case True
    then have "b = of_nat (N - 1)" by (simp only: b_def simp_thms if_True)
    moreover have "unat (of_nat (N - 1) :: u32) = N - 1"
      using N by (intro unat_of_nat_small) simp
    ultimately have "unat b = N - 1" by (simp only:)
    then show ?thesis using True by simp
  next
    case False
    then have "b = q_begin q - 1" by (simp only: b_def if_False)
    then have "unat b = unat (q_begin q) - 1" using False by (simp add: unat_pred)
    then show ?thesis using False by (simp add: unat_eq_0)
  qed
  have us: "unat (q_size q + 1) = unat (q_size q) + 1"
    using sN N by (intro unat_succ) simp
  have ubN: "unat b < N" using bN N(1) unfolding ub by (simp split: if_split) arith
  have shift: "Suc (unat b + j) mod N = (unat (q_begin q) + j) mod N" for j
    using N bN by (auto simp: ub)
  have ne: "(unat (q_begin q) + j) mod N \<noteq> unat b" if "j < unat (q_size q)" for j
    using N bN sN that by (auto simp: ub mod_lt_twice)
  have nth': "logical N q' ! i = (q_array q)[unat b := v] ! ((unat b + i) mod N)"
    if "i < unat (q_size q) + 1" for i
    using that by (simp add: nth_logical q'_def us)
  show "fst (queue_push_back N q v) = 0" by (simp add: res)
  show "queue_ok N (snd (queue_push_back N q v))"
    using ubN sN len by (simp add: res q'_def queue_ok_def us)
  show "logical N (snd (queue_push_back N q v)) = v # logical N q"
  proof (rule nth_equalityI)
    show "length (logical N (snd (queue_push_back N q v))) = length (v # logical N q)"
      by (simp add: res length_logical q'_def us)
  next
    fix i assume "i < length (logical N (snd (queue_push_back N q v)))"
    then have i: "i < unat (q_size q) + 1" by (simp add: res length_logical q'_def us)
    show "logical N (snd (queue_push_back N q v)) ! i = (v # logical N q) ! i"
    proof (cases i)
      case 0
      then show ?thesis using ubN len i by (simp add: res nth')
    next
      case (Suc j)
      then have j: "j < unat (q_size q)" using i by simp
      show ?thesis using Suc j i ne [OF j]
        by (simp add: res nth' shift nth_logical)
    qed
  qed
qed

lemma queue_pop_back_empty: "q_size q = 0 \<Longrightarrow> queue_pop_back N q = (- 1, q, None)"
  by (simp add: queue_pop_back_def)

lemma queue_pop_back_ok:
  assumes ok: "queue_ok N q" and N: "0 < N" "N < 2 ^ 31" and ne: "q_size q \<noteq> 0"
  shows "\<exists>q'. queue_pop_back N q = (0, q', Some (hd (logical N q)))
           \<and> queue_ok N q' \<and> logical N q' = tl (logical N q)
           \<and> unat (q_size q') = unat (q_size q) - 1"
proof -
  define b where "b = (if unat (q_begin q) = N - 1 then 0 else q_begin q + 1 :: u32)"
  define q' where "q' = q\<lparr>q_begin := b, q_size := q_size q - 1\<rparr>"
  have bN: "unat (q_begin q) < N" and sN: "unat (q_size q) \<le> N" and len: "length (q_array q) = N"
    using ok by (auto simp: queue_ok_def)
  have s0: "0 < unat (q_size q)" using ne by (simp add: unat_gt_0)
  have us: "unat (q_size q - 1) = unat (q_size q) - 1" using ne by (rule unat_pred)
  have ub: "unat b = (if unat (q_begin q) = N - 1 then 0 else unat (q_begin q) + 1)"
  proof (cases "unat (q_begin q) = N - 1")
    case True
    then show ?thesis by (simp add: b_def)
  next
    case False
    have "unat (q_begin q + 1) = unat (q_begin q) + 1"
      using bN N by (intro unat_succ) simp
    then show ?thesis using False by (simp add: b_def)
  qed
  have ubN: "unat b < N" using bN N(1) unfolding ub by (simp split: if_split) arith
  have shift: "(unat b + j) mod N = Suc (unat (q_begin q) + j) mod N" for j
    using N bN by (auto simp: ub)
  have hd: "hd (logical N q) = q_array q ! unat (q_begin q)"
    using s0 bN by (simp add: hd_conv_nth length_logical nth_logical flip: length_greater_0_conv)
  have res: "queue_pop_back N q = (0, q', Some (hd (logical N q)))"
    using ne by (simp add: queue_pop_back_def b_def q'_def Let_def hd)
  have "logical N q' = tl (logical N q)"
  proof (rule nth_equalityI)
    show "length (logical N q') = length (tl (logical N q))"
      by (simp add: length_logical q'_def us)
  next
    fix i assume "i < length (logical N q')"
    then have i: "i < unat (q_size q) - 1" by (simp add: length_logical q'_def us)
    then have "logical N q' ! i = q_array q ! ((unat b + i) mod N)"
      by (simp add: nth_logical q'_def us)
    moreover have "tl (logical N q) ! i = q_array q ! (Suc (unat (q_begin q) + i) mod N)"
      using i by (simp add: nth_tl length_logical nth_logical)
    ultimately show "logical N q' ! i = tl (logical N q) ! i" by (simp add: shift)
  qed
  moreover have "queue_ok N q'" using ubN sN len by (simp add: q'_def queue_ok_def us)
  moreover have "unat (q_size q') = unat (q_size q) - 1" by (simp add: q'_def us)
  ultimately show ?thesis using res by blast
qed

lemma queue_pop_front_empty: "q_size q = 0 \<Longrightarrow> queue_pop_front N q = Inr (- 1, q, None)"
  by (simp add: queue_pop_front_def)

lemma queue_pop_front_ok:
  assumes ok: "queue_ok N q" and N: "0 < N" "N < 2 ^ 31" and ne: "q_size q \<noteq> 0"
  shows "\<exists>q'. queue_pop_front N q = Inr (0, q', Some (last (logical N q)))
           \<and> queue_ok N q' \<and> logical N q' = butlast (logical N q)
           \<and> q_begin q' = q_begin q \<and> q_array q' = q_array q
           \<and> unat (q_size q') = unat (q_size q) - 1"
proof -
  define q' where "q' = q\<lparr>q_size := q_size q - 1\<rparr>"
  have bN: "unat (q_begin q) < N" and sN: "unat (q_size q) \<le> N" and len: "length (q_array q) = N"
    using ok by (auto simp: queue_ok_def)
  have s0: "0 < unat (q_size q)" using ne by (simp add: unat_gt_0)
  have us: "unat (q_size q - 1) = unat (q_size q) - 1" using ne by (rule unat_pred)
  have lt: "q_size q - 1 < q_size q" using s0 by (simp add: word_less_nat_alt us)
  have "queue_get_value N q (q_size q - 1) = Inr (logical N q ! unat (q_size q - 1))"
    using ok N(2) lt by (rule queue_get_value_ok)
  moreover have "last (logical N q) = logical N q ! (unat (q_size q) - 1)"
    using s0 by (simp add: last_conv_nth length_logical flip: length_greater_0_conv)
  ultimately have res: "queue_pop_front N q = Inr (0, q', Some (last (logical N q)))"
    using ne by (simp add: queue_pop_front_def q'_def us)
  have "logical N q' = butlast (logical N q)"
  proof (rule nth_equalityI)
    show "length (logical N q') = length (butlast (logical N q))"
      by (simp add: length_logical q'_def us)
  next
    fix i assume "i < length (logical N q')"
    then have i: "i < unat (q_size q) - 1" by (simp add: length_logical q'_def us)
    then show "logical N q' ! i = butlast (logical N q) ! i"
      by (simp add: nth_butlast length_logical nth_logical q'_def us)
  qed
  moreover have "queue_ok N q'" using bN sN len by (simp add: q'_def queue_ok_def us)
  moreover have "unat (q_size q') = unat (q_size q) - 1" by (simp add: q'_def us)
  ultimately show ?thesis using res by (auto simp: q'_def)
qed

lemma push_all_ok:
  assumes N: "0 < N" "N < 2 ^ 31"
  shows "queue_ok N q \<Longrightarrow> unat (q_size q) + length vs \<le> N \<Longrightarrow>
     fst (push_all N q vs) = replicate (length vs) 0
     \<and> queue_ok N (snd (push_all N q vs))
     \<and> logical N (snd (push_all N q vs)) = rev vs @ logical N q"
proof (induction vs arbitrary: q)
  case Nil
  then show ?case by simp
next
  case (Cons v vs)
  have room: "unat (q_size q) \<noteq> N" using Cons.prems(2) by simp
  note pb = queue_push_back_ok [OF Cons.prems(1) N room, of v]
  obtain rc q1 where r: "queue_push_back N q v = (rc, q1)" by (cases "queue_push_back N q v")
  have rc: "rc = 0" and ok1: "queue_ok N q1" and l1: "logical N q1 = v # logical N q"
    using pb by (simp_all add: r)
  have "unat (q_size q1) = Suc (unat (q_size q))"
    using l1 length_logical [of N q1] length_logical [of N q] by simp
  then have "unat (q_size q1) + length vs \<le> N" using Cons.prems(2) by simp
  from Cons.IH [OF ok1 this] show ?case
    by (auto simp: r rc l1 split: prod.splits)
qed

lemma pop_back_times_ok:
  assumes N: "0 < N" "N < 2 ^ 31"
  shows "queue_ok N q \<Longrightarrow> k \<le> unat (q_size q) \<Longrightarrow>
     fst (pop_back_times N q k) = map (\<lambda>v. (0, Some v)) (take k (logical N q))
     \<and> queue_ok N (snd (pop_back_times N q k))
     \<and> logical N (snd (pop_back_times N q k)) = drop k (logical N q)"
proof (induction k arbitrary: q)
  case 0
  then show ?case by simp
next
  case (Suc k)
  have ne: "q_size q \<noteq> 0" using Suc.prems(2) by (auto simp: unat_eq_0)
  from queue_pop_back_ok [OF Suc.prems(1) N ne]
  obtain q1 where r: "queue_pop_back N q = (0, q1, Some (hd (logical N q)))"
    and ok1: "queue_ok N q1" and l1: "logical N q1 = tl (logical N q)"
    and s1: "unat (q_size q1) = unat (q_size q) - 1" by blast
  have k: "k \<le> unat (q_size q1)" using Suc.prems(2) s1 by simp
  have nonempty: "logical N q \<noteq> []"
    using Suc.prems(2) length_logical [of N q] by auto
  then have tk: "take (Suc k) (logical N q) = hd (logical N q) # take k (tl (logical N q))"
    by (cases "logical N q") simp_all
  from Suc.IH [OF ok1 k] show ?case
    by (auto simp: r l1 tk drop_Suc split: prod.splits)
qed

lemma pop_front_times_ok:
  assumes N: "0 < N" "N < 2 ^ 31"
  shows "queue_ok N q \<Longrightarrow> k \<le> unat (q_size q) \<Longrightarrow>
     \<exists>q'. pop_front_times N q k =
            Inr (map (\<lambda>v. (0, Some v, q_begin q)) (take k (rev (logical N q))), q')
          \<and> queue_ok N q'
          \<and> logical N q' = take (unat (q_size q) - k) (logical N q)"
proof (induction k arbitrary: q)
  case 0
  then show ?case using length_logical [of N q] by simp
next
  case (Suc k)
  have ne: "q_size q \<noteq> 0" using Suc.prems(2) by (auto simp: unat_eq_0)
  from queue_pop_front_ok [OF Suc.prems(1) N ne]
  obtain q1 where r: "queue_pop_front N q = Inr (0, q1, Some (last (logical N q)))"
    and ok1: "queue_ok N q1" and l1: "logical N q1 = butlast (logical N q)"
    and b1: "q_begin q1 = q_begin q"
    and s1: "unat (q_size q1) = unat (q_size q) - 1" by blast
  have k: "k \<le> unat (q_size q1)" using Suc.prems(2) s1 by simp
  have nonempty: "logical N q \<noteq> []"
    using Suc.prems(2) length_logical [of N q] by auto
  then have tk: "take (Suc k) (rev (logical N q)) = last (logical N q) # take k (rev (butlast (logical N q)))"
    by (cases "logical N q" rule: rev_cases) simp_all
  have tb: "take (unat (q_size q) - Suc k) (butlast (logical N q)) = take (unat (q_size q) - Suc k) (logical N q)"
    using length_logical [of N q] by (simp add: butlast_conv_take min_def)
  from Suc.IH [OF ok1 k] obtain q' where
    "pop_front_times N q1 k = Inr (map (\<lambda>v. (0, Some v, q_begin q1)) (take k (rev (logical N q1))), q')"
    "queue_ok N q'" "logical N q' = take (unat (q_size q1) - k) (logical N q1)" by blast
  then show ?case
    by (simp add: r l1 b1 s1 tk tb)
qed

section \<open>Round trips\<close>

text \<open>
  Claim C7. Starting from an empty queue, for every \<open>k \<le> N\<close> and values
  \<open>v1 .. vk\<close>: pushing them with \<open>queue_push_back\<close> succeeds at every step
  (status 0), and \<open>k\<close> calls of \<open>queue_pop_back\<close> then succeed at every step and
  return \<open>vk, .., v1\<close>, the reverse of the insertion order. The empty queue is any
  queue of size 0 that satisfies the invariant, wherever its \<open>begin\<close> stands.
\<close>

theorem push_then_pop_back_reverses:
  assumes "0 < N" "N < 2 ^ 31" "queue_ok N q" "q_size q = 0" "length vs \<le> N"
  shows "fst (push_all N q vs) = replicate (length vs) 0
       \<and> fst (pop_back_times N (snd (push_all N q vs)) (length vs))
           = map (\<lambda>v. (0, Some v)) (rev vs)"
proof -
  have room: "unat (q_size q) + length vs \<le> N" using assms(4,5) by simp
  note p = push_all_ok [OF assms(1,2,3) room]
  have l: "logical N (snd (push_all N q vs)) = rev vs"
    using p assms(4) by (simp add: logical_empty)
  then have "length vs \<le> unat (q_size (snd (push_all N q vs)))"
    using length_logical [of N "snd (push_all N q vs)"] by simp
  from pop_back_times_ok [OF assms(1,2) _ this] p l show ?thesis by simp
qed

theorem push_then_pop_back_reverses_witness:
  "(0::nat) < 5 \<and> (5::nat) < 2 ^ 31 \<and> queue_ok 5 (queue_init 5) \<and> q_size (queue_init 5) = 0
   \<and> length [10, 20, 30 :: u32] \<le> 5
   \<and> fst (push_all 5 (queue_init 5) [10, 20, 30]) = [0, 0, 0]
   \<and> fst (pop_back_times 5 (snd (push_all 5 (queue_init 5) [10, 20, 30])) 3)
       = [(0, Some 30), (0, Some 20), (0, Some 10)]"
proof -
  have h: "(0::nat) < 5" "(5::nat) < 2 ^ 31" "queue_ok 5 (queue_init 5)"
    "q_size (queue_init 5) = 0" "length [10, 20, 30 :: u32] \<le> 5"
    by (simp_all add: queue_ok_def queue_init_def)
  show ?thesis
    using h push_then_pop_back_reverses [OF h] by (simp add: numeral_3_eq_3)
qed

text \<open>
  Claim C8. Starting from an empty queue, for every \<open>k \<le> N\<close> and values
  \<open>v1 .. vk\<close>: pushing them with \<open>queue_push_back\<close> succeeds at every step, and
  \<open>k\<close> calls of \<open>queue_pop_front\<close> then succeed at every step and return
  \<open>v1, .., vk\<close> in insertion order; after each of these calls \<open>begin\<close> is what it
  was before the first.
\<close>

theorem push_then_pop_front_keeps_order:
  assumes "0 < N" "N < 2 ^ 31" "queue_ok N q" "q_size q = 0" "length vs \<le> N"
  shows "fst (push_all N q vs) = replicate (length vs) 0
       \<and> (\<exists>q'. pop_front_times N (snd (push_all N q vs)) (length vs)
              = Inr (map (\<lambda>v. (0, Some v, q_begin (snd (push_all N q vs)))) vs, q'))"
proof -
  have room: "unat (q_size q) + length vs \<le> N" using assms(4,5) by simp
  note p = push_all_ok [OF assms(1,2,3) room]
  have l: "logical N (snd (push_all N q vs)) = rev vs"
    using p assms(4) by (simp add: logical_empty)
  then have "length vs \<le> unat (q_size (snd (push_all N q vs)))"
    using length_logical [of N "snd (push_all N q vs)"] by simp
  from pop_front_times_ok [OF assms(1,2) _ this] p l show ?thesis by auto
qed

theorem push_then_pop_front_keeps_order_witness:
  "(0::nat) < 5 \<and> (5::nat) < 2 ^ 31 \<and> queue_ok 5 (queue_init 5) \<and> q_size (queue_init 5) = 0
   \<and> length [10, 20, 30 :: u32] \<le> 5
   \<and> fst (push_all 5 (queue_init 5) [10, 20, 30]) = [0, 0, 0]
   \<and> (\<exists>q'. pop_front_times 5 (snd (push_all 5 (queue_init 5) [10, 20, 30])) 3
          = Inr ([(0, Some 10, 2), (0, Some 20, 2), (0, Some 30, 2)], q'))"
proof -
  have h: "(0::nat) < 5" "(5::nat) < 2 ^ 31" "queue_ok 5 (queue_init 5)"
    "q_size (queue_init 5) = 0" "length [10, 20, 30 :: u32] \<le> 5"
    by (simp_all add: queue_ok_def queue_init_def)
  show ?thesis
    using h push_then_pop_front_keeps_order [OF h]
    by (simp add: numeral_3_eq_3 queue_init_def queue_push_back_def queue_pop_front_def
        queue_get_value_def Let_def)
qed

section \<open>Copying out\<close>

lemma length_memcpy:
  "doff + n \<le> length dst \<Longrightarrow> soff + n \<le> length src \<Longrightarrow>
   length (memcpy dst doff src soff n) = length dst"
  by (simp add: memcpy_def)

lemma nth_memcpy:
  assumes "doff + n \<le> length dst" "soff + n \<le> length src" "i < length dst"
  shows "memcpy dst doff src soff n ! i =
     (if doff \<le> i \<and> i < doff + n then src ! (soff + (i - doff)) else dst ! i)"
proof -
  consider "i < doff" | "doff \<le> i" "i < doff + n" | "doff + n \<le> i" by linarith
  then show ?thesis
  proof cases
    case 1
    then show ?thesis using assms by (simp add: memcpy_def nth_append)
  next
    case 2
    then have "i - doff < n" by arith
    then show ?thesis using 2 assms by (simp add: memcpy_def nth_append)
  next
    case 3
    then have "\<not> i - doff < n" "\<not> i < doff" "i - doff - n + (doff + n) = i" by arith+
    then show ?thesis using 3 assms by (simp add: memcpy_def nth_append)
  qed
qed

lemma queue_copy_to_logical_aux:
  assumes N: "0 < N" "N < 2 ^ 31" and ok: "queue_ok N q"
    and cap: "unat (q_size q) \<le> length dst"
  shows "queue_copy_to N q dst = logical N q @ drop (unat (q_size q)) dst"
proof -
  define b where "b = unat (q_begin q)"
  define s where "s = unat (q_size q)"
  have bN: "b < N" and sN: "s \<le> N" and len: "length (q_array q) = N"
    using ok by (auto simp: queue_ok_def b_def s_def)
  have sum: "unat (q_begin q + q_size q) = b + s"
    unfolding b_def s_def using bN sN N by (intro unat_add_small) (auto simp: b_def s_def)
  have lenR: "length (logical N q @ drop s dst) = length dst"
    using cap by (simp add: length_logical s_def)
  have nthR: "(logical N q @ drop s dst) ! i
      = (if i < s then q_array q ! ((b + i) mod N) else dst ! i)" if "i < length dst" for i
    using that cap by (auto simp: nth_append length_logical nth_logical s_def b_def)
  show ?thesis
  proof (cases "b + s \<le> N")
    case True
    have r: "queue_copy_to N q dst = memcpy dst 0 (q_array q) b s"
      using True by (simp add: queue_copy_to_def sum b_def s_def)
    show ?thesis unfolding r s_def [symmetric]
    proof (rule nth_equalityI)
      show "length (memcpy dst 0 (q_array q) b s) = length (logical N q @ drop s dst)"
        using True cap len unfolding lenR by (intro length_memcpy) (simp_all add: s_def)
    next
      fix i assume "i < length (memcpy dst 0 (q_array q) b s)"
      then have i: "i < length dst" using True cap len by (simp add: length_memcpy s_def)
      have "memcpy dst 0 (q_array q) b s ! i = (if i < s then q_array q ! (b + i) else dst ! i)"
        using True cap len i by (simp add: nth_memcpy s_def)
      moreover have "(b + i) mod N = b + i" if "i < s" using that True by simp
      ultimately show "memcpy dst 0 (q_array q) b s ! i = (logical N q @ drop s dst) ! i"
        using i by (simp add: nthR)
    qed
  next
    case False
    define f where "f = N - b"
    define g where "g = s + b - N"
    have uf: "unat (of_nat N - q_begin q :: u32) = f"
    proof -
      have "unat (of_nat N :: u32) = N" using N by (intro unat_of_nat_small) simp
      moreover have "q_begin q \<le> (of_nat N :: u32)"
        using bN \<open>unat (of_nat N :: u32) = N\<close> by (simp add: word_le_nat_alt b_def)
      ultimately show ?thesis by (simp add: unat_sub f_def b_def)
    qed
    have ug: "unat (q_size q + q_begin q - of_nat N :: u32) = g"
    proof -
      have n: "unat (of_nat N :: u32) = N" using N by (intro unat_of_nat_small) simp
      have sm: "unat (q_size q + q_begin q) = s + b" using sum by (simp add: add.commute)
      have "(of_nat N :: u32) \<le> q_size q + q_begin q"
        using False by (simp add: word_le_nat_alt sm n)
      then show ?thesis by (simp add: unat_sub sm n g_def)
    qed
    have r: "queue_copy_to N q dst
        = memcpy (memcpy dst 0 (q_array q) b f) f (q_array q) 0 g"
      using False by (simp add: queue_copy_to_def sum uf ug Let_def flip: b_def s_def)
    have fb: "f + g = s" "b + f = N" "g \<le> N" "f \<le> s"
      using False bN sN by (auto simp: f_def g_def)
    have l1: "length (memcpy dst 0 (q_array q) b f) = length dst"
      using fb cap len by (intro length_memcpy) (auto simp: s_def)
    have l2: "length (memcpy (memcpy dst 0 (q_array q) b f) f (q_array q) 0 g) = length dst"
      using fb cap len l1 by (subst length_memcpy) (auto simp: s_def)
    show ?thesis unfolding r s_def [symmetric]
    proof (rule nth_equalityI)
      show "length (memcpy (memcpy dst 0 (q_array q) b f) f (q_array q) 0 g)
          = length (logical N q @ drop s dst)"
        unfolding l2 lenR ..
    next
      fix i assume "i < length (memcpy (memcpy dst 0 (q_array q) b f) f (q_array q) 0 g)"
      then have i: "i < length dst" by (simp add: l2)
      have inner: "memcpy dst 0 (q_array q) b f ! i
          = (if i < f then q_array q ! (b + i) else dst ! i)"
        using fb cap len i by (subst nth_memcpy) (auto simp: s_def)
      have outer: "memcpy (memcpy dst 0 (q_array q) b f) f (q_array q) 0 g ! i
          = (if f \<le> i \<and> i < f + g then q_array q ! (i - f)
             else memcpy dst 0 (q_array q) b f ! i)"
        using fb cap len i l1 by (subst nth_memcpy) (auto simp: s_def)
      have m1: "(b + i) mod N = b + i" if "i < f" using that fb by simp
      have m2: "(b + i) mod N = i - f" if "f \<le> i" "i < s"
        using that fb bN sN by (simp add: mod_lt_twice)
      show "memcpy (memcpy dst 0 (q_array q) b f) f (q_array q) 0 g ! i
          = (logical N q @ drop s dst) ! i"
        using i fb by (auto simp: outer inner nthR m1 m2)
    qed
  qed
qed

lemma ring_step_refines:
  assumes N: "0 < N" "N < 2 ^ 31" and ok: "queue_ok N q"
  shows "\<exists>q'. ring_step N q x = Inr q' \<and> queue_ok N q'
           \<and> logical N q' = ref_step N (logical N q) x"
proof (cases x)
  case (Push v)
  show ?thesis
  proof (cases "unat (q_size q) = N")
    case True
    then show ?thesis using ok Push
      by (simp add: queue_push_back_full length_logical)
  next
    case False
    from queue_push_back_ok [OF ok N False, of v] False show ?thesis
      using Push by (simp add: length_logical)
  qed
next
  case PopBack
  show ?thesis
  proof (cases "q_size q = 0")
    case True
    then show ?thesis using ok PopBack
      by (simp add: queue_pop_back_empty logical_empty)
  next
    case False
    from queue_pop_back_ok [OF ok N False] show ?thesis
      using PopBack by auto
  qed
next
  case PopFront
  show ?thesis
  proof (cases "q_size q = 0")
    case True
    then show ?thesis using ok PopFront
      by (simp add: queue_pop_front_empty logical_empty)
  next
    case False
    from queue_pop_front_ok [OF ok N False] show ?thesis
      using PopFront by auto
  qed
qed

lemma ring_run_refines:
  assumes N: "0 < N" "N < 2 ^ 31"
  shows "queue_ok N q \<Longrightarrow>
     \<exists>q'. ring_run N q ops = Inr q' \<and> queue_ok N q'
          \<and> logical N q' = ref_run N (logical N q) ops"
proof (induction ops arbitrary: q)
  case Nil
  then show ?case by simp
next
  case (Cons x ops)
  from ring_step_refines [OF N Cons.prems, of x] obtain q1 where
    s: "ring_step N q x = Inr q1" and ok1: "queue_ok N q1"
    and l1: "logical N q1 = ref_step N (logical N q) x" by blast
  from Cons.IH [OF ok1] show ?case by (simp add: s l1)
qed

text \<open>
  Claim C6. For every queue, \<open>queue_copy_to\<close> writes exactly the logical elements at
  offsets \<open>0\<close> to \<open>size - 1\<close>, in offset order, into the destination (the cells of
  the destination behind them keep their content), also when the logical range wraps
  past the end of the array. The queue is a \<open>const\<close> argument and is not part of the
  result. After any history of pushes and pops the copy equals the content of the
  reference deque after the same history.
\<close>

theorem queue_copy_to_logical:
  assumes "0 < N" "N < 2 ^ 31" "queue_ok N q" "unat (q_size q) \<le> length dst"
  shows "queue_copy_to N q dst = logical N q @ drop (unat (q_size q)) dst
       \<and> (\<exists>q'. ring_run N q ops = Inr q'
             \<and> queue_copy_to N q' (replicate (unat (q_size q')) 0)
                 = ref_run N (logical N q) ops)"
proof -
  from ring_run_refines [OF assms(1,2,3), of ops] obtain q' where
    r: "ring_run N q ops = Inr q'" and ok': "queue_ok N q'"
    and l': "logical N q' = ref_run N (logical N q) ops" by blast
  have "queue_copy_to N q' (replicate (unat (q_size q')) 0) = logical N q'"
    using queue_copy_to_logical_aux [OF assms(1,2) ok', of "replicate (unat (q_size q')) 0"]
    by simp
  then show ?thesis
    using queue_copy_to_logical_aux [OF assms] r l' by simp
qed

theorem queue_copy_to_logical_witness:
  "(0::nat) < 5 \<and> (5::nat) < 2 ^ 31 \<and> queue_ok 5 make_initial
   \<and> unat (q_size make_initial) \<le> length [9, 9, 9, 9, 9, 9 :: u32]
   \<and> queue_copy_to 5 make_initial [9, 9, 9, 9, 9, 9] = [1, 2, 3, 4, 9, 9]
   \<and> queue_ok 5 (queue_init 5)
   \<and> (\<exists>q'. ring_run 5 (queue_init 5)
               [Push 1, Push 2, Push 3, Push 4, Push 5, PopFront, Push 6] = Inr q'
         \<and> q_begin q' = 4 \<and> q_size q' = 5
         \<and> queue_copy_to 5 q' (replicate (unat (q_size q')) 0) = [6, 5, 4, 3, 2])"
proof -
  have h: "(0::nat) < 5" "(5::nat) < 2 ^ 31" "queue_ok 5 make_initial"
    "unat (q_size make_initial) \<le> length [9, 9, 9, 9, 9, 9 :: u32]"
    by (simp_all add: queue_ok_def make_initial_def)
  have h2: "queue_ok 5 (queue_init 5)" "unat (q_size (queue_init 5)) \<le> length ([] :: u32 list)"
    by (simp_all add: queue_ok_def queue_init_def)
  have l: "logical 5 make_initial = [1, 2, 3, 4]"
    by (simp add: logical_def make_initial_def upt_rec)
  have s: "unat (q_size make_initial) = 4" by (simp add: make_initial_def)
  have l0: "logical 5 (queue_init 5) = []" by (simp add: logical_empty queue_init_def)
  have a: "queue_copy_to 5 make_initial [9, 9, 9, 9, 9, 9] = [1, 2, 3, 4, 9, 9]"
    using queue_copy_to_logical [OF h, of "[]"] by (simp add: l s)
  have b: "\<exists>q'. ring_run 5 (queue_init 5)
               [Push 1, Push 2, Push 3, Push 4, Push 5, PopFront, Push 6] = Inr q'
         \<and> q_begin q' = 4 \<and> q_size q' = 5
         \<and> queue_copy_to 5 q' (replicate (unat (q_size q')) 0) = [6, 5, 4, 3, 2]"
    using queue_copy_to_logical [OF h(1,2) h2,
        of "[Push 1, Push 2, Push 3, Push 4, Push 5, PopFront, Push 6]", unfolded l0]
    by (simp add: queue_init_def queue_push_back_def queue_pop_front_def
        queue_get_value_def Let_def)
  show ?thesis using h h2(1) a b by simp
qed

section \<open>Removing by offset\<close>

lemma mod_neq_near:
  assumes "a < b" "b - a < (N::nat)"
  shows "a mod N \<noteq> b mod N"
proof
  assume "a mod N = b mod N"
  then have "b mod N = a mod N" by simp
  moreover have "a \<le> b" using assms(1) by simp
  ultimately have "N dvd b - a" by (simp only: mod_eq_dvd_iff_nat)
  then have "N \<le> b - a" using assms(1) by (intro dvd_imp_le) simp_all
  then show False using assms(2) by simp
qed

lemma unat_succ_below: "unat (x :: u32) < unat (y :: u32) \<Longrightarrow> unat (x + 1) = unat x + 1"
proof -
  assume "unat x < unat y"
  moreover have "unat y < 2 ^ 32" using unsigned_less [of y] by simp
  ultimately have "unat x + unat (1 :: u32) < 2 ^ LENGTH(32)" by simp
  then have "unat (x + 1) = unat x + unat (1 :: u32)" by (simp only: unat_add_lem)
  then show ?thesis by simp
qed

lemma length_remove_loop: "length (remove_loop N stop ii arr) = length arr"
proof (induction N stop ii arr rule: remove_loop.induct)
  case (1 N stop ii arr)
  show ?case
  proof (cases "ii = stop")
    case True
    then show ?thesis by (subst remove_loop.simps) simp
  next
    case False
    then show ?thesis using 1 [OF False refl]
      by (subst remove_loop.simps) (simp add: Let_def)
  qed
qed

lemma remove_loop_outside:
  "unat ii \<le> unat stop \<Longrightarrow>
   \<forall>k. unat ii \<le> k \<and> k < unat stop \<longrightarrow> k mod N \<noteq> p \<Longrightarrow>
   remove_loop N stop ii arr ! p = arr ! p"
proof (induction N stop ii arr rule: remove_loop.induct)
  case (1 N stop ii arr)
  show ?case
  proof (cases "ii = stop")
    case True
    then show ?thesis by (subst remove_loop.simps) simp
  next
    case False
    then have lt: "unat ii < unat stop" using "1.prems"(1)
      by (metis le_neq_implies_less word_unat_eq_iff)
    have su: "unat (ii + 1) = unat ii + 1" using lt by (rule unat_succ_below)
    have a: "unat (ii + 1) \<le> unat stop" using lt su by simp
    have b: "\<forall>k. unat (ii + 1) \<le> k \<and> k < unat stop \<longrightarrow> k mod N \<noteq> p"
      using "1.prems"(2) su by auto
    have c: "unat ii mod N \<noteq> p" using "1.prems"(2) lt by auto
    have "remove_loop N stop ii arr ! p
        = remove_loop N stop (ii + 1) (arr[unat ii mod N := arr ! (unat (ii + 1) mod N)]) ! p"
      using False by (subst remove_loop.simps) (simp add: Let_def)
    also have "\<dots> = (arr[unat ii mod N := arr ! (unat (ii + 1) mod N)]) ! p"
      using "1.IH" [OF False refl a b] .
    also have "\<dots> = arr ! p" using c by simp
    finally show ?thesis .
  qed
qed

lemma remove_loop_shifted:
  "0 < N \<Longrightarrow> length arr = N \<Longrightarrow> unat ii \<le> k \<Longrightarrow> k < unat stop \<Longrightarrow> unat stop - unat ii < N \<Longrightarrow>
   remove_loop N stop ii arr ! (k mod N) = arr ! (Suc k mod N)"
proof (induction N stop ii arr rule: remove_loop.induct)
  case (1 N stop ii arr)
  have lt: "unat ii < unat stop" using "1.prems" by simp
  then have ne: "ii \<noteq> stop" by auto
  have su: "unat (ii + 1) = unat ii + 1" using lt by (rule unat_succ_below)
  let ?arr1 = "arr[unat ii mod N := arr ! (unat (ii + 1) mod N)]"
  have unf: "remove_loop N stop ii arr = remove_loop N stop (ii + 1) ?arr1"
    using ne by (subst remove_loop.simps) (simp add: Let_def)
  show ?case
  proof (cases "k = unat ii")
    case True
    have "\<forall>j. unat (ii + 1) \<le> j \<and> j < unat stop \<longrightarrow> j mod N \<noteq> k mod N"
    proof (intro allI impI)
      fix j assume "unat (ii + 1) \<le> j \<and> j < unat stop"
      then have "k < j" "j - k < N" using True su "1.prems"(5) by auto
      then show "j mod N \<noteq> k mod N" using mod_neq_near [of k j N] by simp
    qed
    then have "remove_loop N stop (ii + 1) ?arr1 ! (k mod N) = ?arr1 ! (k mod N)"
      using lt su by (intro remove_loop_outside) simp_all
    also have "\<dots> = arr ! (Suc k mod N)"
      using True "1.prems"(1,2) su by simp
    finally show ?thesis by (simp add: unf)
  next
    case False
    then have k: "unat (ii + 1) \<le> k" using "1.prems"(3) su by simp
    have w: "unat stop - unat (ii + 1) < N" using "1.prems"(5) su by simp
    have len1: "length ?arr1 = N" using "1.prems"(2) by simp
    have "remove_loop N stop (ii + 1) ?arr1 ! (k mod N) = ?arr1 ! (Suc k mod N)"
      using "1.IH" [OF ne refl "1.prems"(1) len1 k "1.prems"(4) w] .
    moreover have "unat ii mod N \<noteq> Suc k mod N"
      using "1.prems"(3,4,5) by (intro mod_neq_near) simp_all
    ultimately show ?thesis by (simp add: unf)
  qed
qed

lemma queue_remove_ok:
  assumes N: "0 < N" "N < 2 ^ 31" and ok: "queue_ok N q" and idx: "index < q_size q"
  shows "\<exists>q'. queue_remove N q index = Inr q' \<and> queue_ok N q'
      \<and> q_begin q' = q_begin q \<and> unat (q_size q') = unat (q_size q) - 1
      \<and> (\<forall>k. unat index \<le> k \<and> k < unat (q_size q) - 1 \<longrightarrow>
            q_array q' ! ((unat (q_begin q) + k) mod N)
              = q_array q ! ((unat (q_begin q) + k + 1) mod N))
      \<and> logical N q' = take (unat index) (logical N q) @ drop (Suc (unat index)) (logical N q)"
proof -
  define b where "b = unat (q_begin q)"
  define s where "s = unat (q_size q)"
  define i where "i = unat index"
  define stop where "stop = q_begin q + (q_size q - 1)"
  define start where "start = q_begin q + index"
  define arr' where "arr' = remove_loop N stop start (q_array q)"
  define q' where "q' = q\<lparr>q_size := q_size q - 1, q_array := arr'\<rparr>"
  have bN: "b < N" and sN: "s \<le> N" and len: "length (q_array q) = N"
    using ok by (auto simp: queue_ok_def b_def s_def)
  have i_lt: "i < s" using idx by (simp add: word_less_nat_alt i_def s_def)
  have ne: "q_size q \<noteq> 0" using i_lt by (auto simp: s_def)
  have us: "unat (q_size q - 1) = s - 1" using ne by (simp add: unat_pred s_def)
  have ustop: "unat stop = b + (s - 1)"
    unfolding stop_def b_def us [symmetric]
    using bN sN N us by (intro unat_add_small) (auto simp: b_def)
  have ustart: "unat start = b + i"
    unfolding start_def b_def i_def
    using bN sN N i_lt by (intro unat_add_small) (auto simp: b_def i_def)
  have res: "queue_remove N q index = Inr q'"
    using idx by (simp add: queue_remove_def Let_def q'_def arr'_def stop_def start_def)
  have le: "unat start \<le> unat stop" using i_lt by (simp add: ustart ustop)
  have win: "unat stop - unat start < N" using i_lt sN by (simp add: ustart ustop)
  have len': "length arr' = N" by (simp add: arr'_def length_remove_loop len)
  have shifted: "arr' ! ((b + k) mod N) = q_array q ! ((b + k + 1) mod N)"
    if "i \<le> k" "k < s - 1" for k
    using remove_loop_shifted [OF N(1) len, of start "b + k" stop] that win
    by (simp add: arr'_def ustart ustop)
  have kept: "arr' ! ((b + k) mod N) = q_array q ! ((b + k) mod N)" if "k < i" for k
  proof -
    have "\<forall>j. unat start \<le> j \<and> j < unat stop \<longrightarrow> j mod N \<noteq> (b + k) mod N"
    proof (intro allI impI)
      fix j assume "unat start \<le> j \<and> j < unat stop"
      then have "b + k < j" "j - (b + k) < N" using that i_lt sN by (auto simp: ustart ustop)
      then show "j mod N \<noteq> (b + k) mod N" using mod_neq_near [of "b + k" j N] by simp
    qed
    then show ?thesis unfolding arr'_def using le by (intro remove_loop_outside) simp_all
  qed
  have "logical N q' = take i (logical N q) @ drop (Suc i) (logical N q)"
  proof (rule nth_equalityI)
    show "length (logical N q') = length (take i (logical N q) @ drop (Suc i) (logical N q))"
      using i_lt by (simp add: length_logical q'_def us flip: s_def)
  next
    fix k assume "k < length (logical N q')"
    then have k: "k < s - 1" by (simp add: length_logical q'_def us)
    have l: "logical N q' ! k = arr' ! ((b + k) mod N)"
      using k by (simp add: nth_logical q'_def us b_def)
    show "logical N q' ! k = (take i (logical N q) @ drop (Suc i) (logical N q)) ! k"
    proof (cases "k < i")
      case True
      then show ?thesis using k i_lt
        by (simp add: l kept nth_append length_logical nth_logical flip: s_def b_def)
    next
      case False
      then have "i \<le> k" by simp
      from shifted [OF this k] False k i_lt show ?thesis
        by (simp add: l nth_append length_logical nth_logical min_def flip: s_def b_def)
    qed
  qed
  moreover have "queue_ok N q'" using bN sN len' by (simp add: q'_def queue_ok_def us b_def)
  moreover have "\<forall>k. i \<le> k \<and> k < s - 1 \<longrightarrow>
      q_array q' ! ((b + k) mod N) = q_array q ! ((b + k + 1) mod N)"
    using shifted by (simp add: q'_def)
  ultimately show ?thesis
    using res by (simp add: q'_def us flip: b_def s_def i_def)
qed

text \<open>
  Claim C4. For every queue and every offset below \<open>size\<close>, \<open>queue_remove\<close> returns
  with \<open>begin\<close> untouched and \<open>size\<close> one less; for \<open>k\<close> from the offset up to the
  new \<open>size - 1\<close> the slot at circular position \<open>begin + k\<close> holds what the slot at
  \<open>begin + k + 1\<close> held before (indices modulo \<open>N\<close>); the logical sequence is the
  old one without the element at the offset, the others in their order. The source
  decrements \<open>size\<close> before the loop and not after it; the state after the call is the
  same. On 1, 2, 3, 4, removing offset 3 gives 1, 2, 3 and then offset 0 gives 2, 3.
\<close>

theorem queue_remove_shifts:
  assumes "0 < N" "N < 2 ^ 31" "queue_ok N q" "index < q_size q"
  shows "\<exists>q'. queue_remove N q index = Inr q'
      \<and> q_begin q' = q_begin q \<and> unat (q_size q') = unat (q_size q) - 1
      \<and> (\<forall>k. unat index \<le> k \<and> k < unat (q_size q) - 1 \<longrightarrow>
            q_array q' ! ((unat (q_begin q) + k) mod N)
              = q_array q ! ((unat (q_begin q) + k + 1) mod N))
      \<and> logical N q' = take (unat index) (logical N q) @ drop (Suc (unat index)) (logical N q)"
  using queue_remove_ok [OF assms] by blast

theorem queue_remove_shifts_witness:
  "(0::nat) < 5 \<and> (5::nat) < 2 ^ 31 \<and> queue_ok 5 make_initial \<and> 3 < q_size make_initial
   \<and> logical 5 make_initial = [1, 2, 3, 4]
   \<and> (\<exists>q1 q2. queue_remove 5 make_initial 3 = Inr q1 \<and> logical 5 q1 = [1, 2, 3]
         \<and> queue_remove 5 q1 0 = Inr q2 \<and> logical 5 q2 = [2, 3]
         \<and> q_begin q1 = 3 \<and> q_begin q2 = 3)"
proof -
  have h: "(0::nat) < 5" "(5::nat) < 2 ^ 31" "queue_ok 5 make_initial" "3 < q_size make_initial"
    by (simp_all add: queue_ok_def make_initial_def)
  have l: "logical 5 make_initial = [1, 2, 3, 4]"
    by (simp add: logical_def make_initial_def upt_rec)
  have r1: "queue_remove 5 make_initial 3 = Inr make_initial_less_4"
    by (simp add: queue_remove_def make_initial_def make_initial_less_4_def Let_def
        remove_loop.simps)
  have h2: "queue_ok 5 make_initial_less_4" "0 < q_size make_initial_less_4"
    by (simp_all add: queue_ok_def make_initial_less_4_def)
  have l1: "logical 5 make_initial_less_4 = [1, 2, 3]"
    using queue_remove_shifts [OF h] by (simp add: r1 l)
  have "\<exists>q2. queue_remove 5 make_initial_less_4 0 = Inr q2 \<and> logical 5 q2 = [2, 3]
      \<and> q_begin q2 = 3"
    using queue_remove_shifts [OF h(1,2) h2, unfolded l1]
    by (auto simp: make_initial_less_4_def)
  then show ?thesis using h l r1 l1 by (simp add: make_initial_less_4_def)
qed

section \<open>Merging\<close>

lemma word_neq_lt: "unat (i :: u32) \<le> unat (n :: u32) \<Longrightarrow> i \<noteq> n \<Longrightarrow> unat i < unat n"
  by (metis le_neq_implies_less word_unat_eq_iff)

lemma unat_double:
  assumes "unat (i :: u32) < 2 ^ 31"
  shows "unat (2 * i) = 2 * unat i"
proof -
  have "2 * i = i + i" by simp
  then have "unat (2 * i) = unat (i + i)" by (rule arg_cong)
  also have "\<dots> = unat i + unat i" using assms assms by (rule unat_add_small)
  finally show ?thesis by simp
qed

lemma unat_double_succ: "unat (i :: u32) < 2 ^ 31 \<Longrightarrow> unat (2 * i + 1) = 2 * unat i + 1"
proof -
  assume a: "unat i < 2 ^ 31"
  then have d: "unat (2 * i) = 2 * unat i" by (rule unat_double)
  have "unat (2 * i) + unat (1 :: u32) < 2 ^ LENGTH(32)" using a d by simp
  then have "unat (2 * i + 1) = unat (2 * i) + unat (1 :: u32)" by (simp only: unat_add_lem)
  then show ?thesis using d by simp
qed

lemma merge_interleave_cells:
  assumes N: "N < 2 ^ 31" and oka: "queue_ok N a" and okb: "queue_ok N b"
    and na: "unat n \<le> unat (q_size a)" and nb: "unat n \<le> unat (q_size b)"
  shows "d = unat n - unat i \<Longrightarrow> unat i \<le> unat n \<Longrightarrow>
     merge_interleave N a b n i blk =
       Inr (blk\<lparr>blk_cells :=
              rev (enumerate (2 * unat i)
                    (concat (map (\<lambda>k. [logical N a ! k, logical N b ! k]) [unat i..<unat n])))
              @ blk_cells blk\<rparr>)"
proof (induction d arbitrary: i blk)
  case 0
  have "i = n" using "0.prems" by (simp add: word_unat_eq_iff)
  then show ?case by (subst merge_interleave.simps) simp
next
  case (Suc d)
  have lt: "unat i < unat n" using Suc.prems(1) by simp
  then have ne: "i \<noteq> n" by auto
  have sa: "unat (q_size a) \<le> N" and sb: "unat (q_size b) \<le> N"
    using oka okb by (auto simp: queue_ok_def)
  have i31: "unat i < 2 ^ 31" using lt na sa N by simp
  have su: "unat (i + 1) = unat i + 1" using i31 by (rule unat_succ)
  have ga: "queue_get_value N a i = Inr (logical N a ! unat i)"
    using lt na by (intro queue_get_value_ok [OF oka N]) (simp add: word_less_nat_alt)
  have gb: "queue_get_value N b i = Inr (logical N b ! unat i)"
    using lt nb by (intro queue_get_value_ok [OF okb N]) (simp add: word_less_nat_alt)
  let ?blk = "store (store blk (unat (2 * i)) (logical N a ! unat i))
                (unat (2 * i + 1)) (logical N b ! unat i)"
  have unf: "merge_interleave N a b n i blk = merge_interleave N a b n (i + 1) ?blk"
    using ne by (subst merge_interleave.simps) (simp add: ga gb)
  have d: "d = unat n - unat (i + 1)" using Suc.prems(1) su by simp
  have le: "unat (i + 1) \<le> unat n" using lt su by simp
  have up: "[unat i..<unat n] = unat i # [Suc (unat i)..<unat n]"
    using lt by (simp add: upt_conv_Cons)
  show ?case
    unfolding unf Suc.IH [OF d le]
    by (simp add: su up store_def unat_double [OF i31] unat_double_succ [OF i31])
qed

lemma merge_tail_cells:
  assumes N: "N < 2 ^ 31" and ok: "queue_ok N mq"
    and n: "unat n \<le> unat (q_size mq)" and m: "unat m \<le> N"
  shows "d = unat n - unat i \<Longrightarrow> unat i \<le> unat n \<Longrightarrow>
     merge_tail N mq m n i blk =
       Inr (blk\<lparr>blk_cells :=
              rev (enumerate (unat m + unat i) (map (\<lambda>k. logical N mq ! k) [unat i..<unat n]))
              @ blk_cells blk\<rparr>)"
proof (induction d arbitrary: i blk)
  case 0
  have "i = n" using "0.prems" by (simp add: word_unat_eq_iff)
  then show ?case by (subst merge_tail.simps) simp
next
  case (Suc d)
  have lt: "unat i < unat n" using Suc.prems(1) by simp
  then have ne: "i \<noteq> n" by auto
  have s: "unat (q_size mq) \<le> N" using ok by (auto simp: queue_ok_def)
  have i31: "unat i < 2 ^ 31" using lt n s N by simp
  have m31: "unat m < 2 ^ 31" using m N by simp
  have su: "unat (i + 1) = unat i + 1" using i31 by (rule unat_succ)
  have mi: "unat (m + i) = unat m + unat i" using m31 i31 by (rule unat_add_small)
  have g: "queue_get_value N mq i = Inr (logical N mq ! unat i)"
    using lt n by (intro queue_get_value_ok [OF ok N]) (simp add: word_less_nat_alt)
  let ?blk = "store blk (unat (m + i)) (logical N mq ! unat i)"
  have unf: "merge_tail N mq m n i blk = merge_tail N mq m n (i + 1) ?blk"
    using ne by (subst merge_tail.simps) (simp add: g)
  have d: "d = unat n - unat (i + 1)" using Suc.prems(1) su by simp
  have le: "unat (i + 1) \<le> unat n" using lt su by simp
  have up: "[unat i..<unat n] = unat i # [Suc (unat i)..<unat n]"
    using lt by (simp add: upt_conv_Cons)
  show ?case
    unfolding unf Suc.IH [OF d le]
    by (simp add: su up store_def mi)
qed

lemma length_concat_pairs: "length (concat (map (\<lambda>k. [g k, h k]) xs)) = 2 * length xs"
  by (induction xs) simp_all

lemma map_nth_upt_drop: "n = length xs \<Longrightarrow> map (\<lambda>k. xs ! k) [i..<n] = drop i xs"
  by (rule nth_equalityI) simp_all

lemma length_zipped: "length (zipped N a b) = unat (q_size a) + unat (q_size b)"
  by (simp add: zipped_def length_concat_pairs length_logical min_def)

lemma map_of_rev_enumerate:
  assumes "k < length zs"
  shows "map_of (rev (enumerate 0 zs)) k = Some (zs ! k)"
proof -
  have "distinct (map fst (rev (enumerate 0 zs)))" by (simp add: rev_map [symmetric])
  moreover have "(k, zs ! k) \<in> set (rev (enumerate 0 zs))"
    using assms by (simp add: in_set_enumerate_eq)
  ultimately show ?thesis by (simp only: map_of_eq_Some_iff)
qed

lemma merge_fill_ok:
  assumes N: "N < 2 ^ 31" and oka: "queue_ok N a" and okb: "queue_ok N b"
    and sum: "unat (q_size a) + unat (q_size b) \<le> N"
  shows "merge_fill N a b =
     Inr \<lparr>blk_bytes = unat (q_size a) + unat (q_size b),
          blk_cells = rev (enumerate 0 (zipped N a b))\<rparr>"
proof -
  define sa where "sa = unat (q_size a)"
  define sb where "sb = unat (q_size b)"
  have s31: "sa < 2 ^ 31" "sb < 2 ^ 31" using sum N by (auto simp: sa_def sb_def)
  have tot: "unat (q_size a + q_size b) = sa + sb"
    unfolding sa_def sb_def using s31 by (intro unat_add_small) (simp_all add: sa_def sb_def)
  show ?thesis
  proof (cases "q_size a < q_size b")
    case True
    then have lt: "sa < sb" by (simp add: word_less_nat_alt sa_def sb_def)
    then have nge: "\<not> q_size b \<le> q_size a" by (simp add: word_le_nat_alt sa_def sb_def)
    have i1: "merge_interleave N a b (q_size a) 0 \<lparr>blk_bytes = sa + sb, blk_cells = []\<rparr> =
        Inr \<lparr>blk_bytes = sa + sb, blk_cells =
          rev (enumerate 0 (concat (map (\<lambda>k. [logical N a ! k, logical N b ! k]) [0..<sa])))\<rparr>"
      using merge_interleave_cells [OF N oka okb, of "q_size a" sa 0 "\<lparr>blk_bytes = sa + sb, blk_cells = []\<rparr>"] lt
      by (simp add: sa_def sb_def)
    have i2: "merge_tail N b (q_size a) (q_size b) (q_size a) blk =
        Inr (blk\<lparr>blk_cells :=
          rev (enumerate (sa + sa) (drop sa (logical N b))) @ blk_cells blk\<rparr>)" for blk
      using merge_tail_cells [OF N okb, of "q_size b" "q_size a" "sb - sa" "q_size a" blk] lt sum
      by (simp add: sa_def sb_def map_nth_upt_drop length_logical)
    have z: "zipped N a b =
        concat (map (\<lambda>k. [logical N a ! k, logical N b ! k]) [0..<sa]) @ drop sa (logical N b)"
      using lt by (simp add: zipped_def min_def flip: sa_def sb_def)
    show ?thesis
      using True nge sum [folded sa_def sb_def]
      by (simp add: merge_fill_def Let_def tot i1 i2 z enumerate_append_eq length_concat_pairs
          malloc_def mult_2 [where 'a = nat] flip: sa_def sb_def)
  next
    case False
    then have ge: "sb \<le> sa" by (simp add: word_less_nat_alt sa_def sb_def)
    then have wge: "q_size b \<le> q_size a" by (simp add: word_le_nat_alt sa_def sb_def)
    have i1: "merge_interleave N a b (q_size b) 0 \<lparr>blk_bytes = sa + sb, blk_cells = []\<rparr> =
        Inr \<lparr>blk_bytes = sa + sb, blk_cells =
          rev (enumerate 0 (concat (map (\<lambda>k. [logical N a ! k, logical N b ! k]) [0..<sb])))\<rparr>"
      using merge_interleave_cells [OF N oka okb, of "q_size b" sb 0 "\<lparr>blk_bytes = sa + sb, blk_cells = []\<rparr>"] ge
      by (simp add: sa_def sb_def)
    have i2: "merge_tail N a (q_size b) (q_size a) (q_size b) blk =
        Inr (blk\<lparr>blk_cells :=
          rev (enumerate (sb + sb) (drop sb (logical N a))) @ blk_cells blk\<rparr>)" for blk
      using merge_tail_cells [OF N oka, of "q_size a" "q_size b" "sa - sb" "q_size b" blk] ge sum
      by (simp add: sa_def sb_def map_nth_upt_drop length_logical)
    have z: "zipped N a b =
        concat (map (\<lambda>k. [logical N a ! k, logical N b ! k]) [0..<sb]) @ drop sb (logical N a)"
      using ge by (simp add: zipped_def min_def flip: sa_def sb_def)
    show ?thesis
      using False wge sum [folded sa_def sb_def]
      by (simp add: merge_fill_def Let_def tot i1 i2 z enumerate_append_eq length_concat_pairs
          malloc_def mult_2 [where 'a = nat] flip: sa_def sb_def)
  qed
qed

lemma queue_merge_ok:
  assumes N: "0 < N" "N < 2 ^ 31" and oka: "queue_ok N a" and okb: "queue_ok N b"
    and sum: "unat (q_size a) + unat (q_size b) \<le> N"
  shows "\<exists>a' b'. queue_merge N junk a b = Inr (a', b') \<and> queue_ok N a' \<and> queue_ok N b'
      \<and> q_begin a' = 0 \<and> unat (q_size a') = unat (q_size a) + unat (q_size b)
      \<and> q_size b' = 0 \<and> q_begin b' = q_begin b \<and> q_array b' = q_array b
      \<and> logical N a' = zipped N a b"
proof -
  define t where "t = unat (q_size a) + unat (q_size b)"
  define Z where "Z = zipped N a b"
  define a' where "a' = a\<lparr>q_begin := 0, q_size := q_size a + q_size b,
      q_array := Z @ drop t (q_array a)\<rparr>"
  have s31: "unat (q_size a) < 2 ^ 31" "unat (q_size b) < 2 ^ 31" using sum N by auto
  have tot: "unat (q_size a + q_size b) = t"
    unfolding t_def using s31 by (rule unat_add_small)
  have lz: "length Z = t" by (simp add: Z_def t_def length_zipped)
  have ld: "map (load junk \<lparr>blk_bytes = t, blk_cells = rev (enumerate 0 Z)\<rparr>) [0..<t] = Z"
    by (rule nth_equalityI) (simp_all add: lz load_def map_of_rev_enumerate)
  have res: "queue_merge N junk a b = Inr (a', b\<lparr>q_size := 0\<rparr>)"
    using lz
    by (simp add: queue_merge_def Let_def merge_fill_ok [OF N(2) oka okb sum] tot ld a'_def
        memcpy_def flip: t_def Z_def)
  have len: "length (q_array a) = N" using oka by (simp add: queue_ok_def)
  have oka': "queue_ok N a'" using N(1) sum len lz by (simp add: a'_def queue_ok_def tot t_def)
  have okb': "queue_ok N (b\<lparr>q_size := 0\<rparr>)" using okb by (simp add: queue_ok_def)
  have "logical N a' = Z"
  proof (rule nth_equalityI)
    show "length (logical N a') = length Z" by (simp add: length_logical a'_def tot lz)
  next
    fix i assume "i < length (logical N a')"
    then have i: "i < t" by (simp add: length_logical a'_def tot)
    then have "i < N" using sum by (simp add: t_def)
    then show "logical N a' ! i = Z ! i"
      using i lz by (simp add: nth_logical a'_def tot nth_append)
  qed
  then show ?thesis using res oka' okb' by (simp add: a'_def tot t_def Z_def)
qed

text \<open>
  The data flow of the source, every store taken to land: for every pair of queues
  \<open>into\<close> and \<open>other\<close> whose sizes sum to at most \<open>N\<close>, the unchecked
  \<open>queue_merge\<close> leaves in \<open>into\<close> the merged sequence of the specification, with
  \<open>begin = 0\<close> and the combined size, and \<open>other\<close> with size 0; on 1, 3, 5 and
  2, 4 that is 1, 2, 3, 4, 5. This is what the source sets out to compute, not what
  a run of it is entitled to.
\<close>

lemma queue_merge_unchecked_zipper:
  assumes "0 < N" "N < 2 ^ 31" "queue_ok N into" "queue_ok N other"
    "unat (q_size into) + unat (q_size other) \<le> N"
  shows "\<exists>into' other'. queue_merge N junk into other = Inr (into', other')
      \<and> logical N into' =
          concat (map (\<lambda>k. [logical N into ! k, logical N other ! k])
                    [0..<min (unat (q_size into)) (unat (q_size other))])
          @ drop (min (unat (q_size into)) (unat (q_size other)))
              (if unat (q_size other) \<le> unat (q_size into) then logical N into
               else logical N other)
      \<and> q_begin into' = 0
      \<and> unat (q_size into') = unat (q_size into) + unat (q_size other)
      \<and> q_size other' = 0"
proof -
  from queue_merge_ok [OF assms, of junk] obtain a' b' where
    "queue_merge N junk into other = Inr (a', b')" "logical N a' = zipped N into other"
    "q_begin a' = 0" "unat (q_size a') = unat (q_size into) + unat (q_size other)"
    "q_size b' = 0"
    by auto
  then show ?thesis unfolding zipped_def by (intro exI [of _ a'] exI [of _ b'] conjI)
qed

lemma queue_merge_unchecked_test_merge:
  "(0::nat) < 5 \<and> (5::nat) < 2 ^ 31 \<and> queue_ok 5 queue_135 \<and> queue_ok 5 queue_24
   \<and> unat (q_size queue_135) + unat (q_size queue_24) \<le> 5
   \<and> logical 5 queue_135 = [1, 3, 5] \<and> logical 5 queue_24 = [2, 4]
   \<and> (\<exists>into' other'. queue_merge 5 zero_junk queue_135 queue_24 = Inr (into', other')
         \<and> logical 5 into' = [1, 2, 3, 4, 5] \<and> q_begin into' = 0 \<and> q_size into' = 5
         \<and> q_size other' = 0)"
proof -
  have h: "(0::nat) < 5" "(5::nat) < 2 ^ 31" "queue_ok 5 queue_135" "queue_ok 5 queue_24"
    "unat (q_size queue_135) + unat (q_size queue_24) \<le> 5"
    by (simp_all add: queue_ok_def queue_135_def queue_24_def)
  have l: "logical 5 queue_135 = [1, 3, 5]" "logical 5 queue_24 = [2, 4]"
    by (simp_all add: logical_def queue_135_def queue_24_def upt_rec)
  have s: "unat (q_size queue_135) = 3" "unat (q_size queue_24) = 2"
    by (simp_all add: queue_135_def queue_24_def)
  have five: "x = 5" if "unat x = 3 + 2" for x :: u32
  proof -
    have "unat x = unat (5 :: u32)" using that by simp
    then show ?thesis by (simp only: word_unat_eq_iff)
  qed
  have z: "concat (map (\<lambda>k. [[1, 3, 5 :: u32] ! k, [2, 4] ! k]) [0..<min 3 2])
        @ drop (min 3 2) (if (2::nat) \<le> 3 then [1, 3, 5] else [2, 4]) = [1, 2, 3, 4, 5]"
    by (simp add: upt_rec)
  have "\<exists>into' other'. queue_merge 5 zero_junk queue_135 queue_24 = Inr (into', other')
         \<and> logical 5 into' = [1, 2, 3, 4, 5] \<and> q_begin into' = 0 \<and> q_size into' = 5
         \<and> q_size other' = 0"
    using queue_merge_unchecked_zipper [OF h, of zero_junk, unfolded l s z] five by blast
  then show ?thesis using h l by simp
qed

text \<open>
  The checked run. With both queues inside the invariant no assertion fails, and each
  loop either overflows the block or does what the unchecked loop does. The block
  has \<open>total_len\<close> bytes and the last store goes to the cell \<open>total_len - 1\<close>, so
  every merge of at least one element overflows.
\<close>

lemma cell_in_block_store: "cell_in_block (store blk k v) j = cell_in_block blk j"
  by (simp add: cell_in_block_def store_def)

lemma blk_bytes_store: "blk_bytes (store blk k v) = blk_bytes blk"
  by (simp add: store_def)

lemma merge_interleave_checked_eq:
  assumes N: "N < 2 ^ 31" and oka: "queue_ok N a" and okb: "queue_ok N b"
    and na: "unat n \<le> unat (q_size a)" and nb: "unat n \<le> unat (q_size b)"
  shows "d = unat n - unat i \<Longrightarrow> unat i \<le> unat n \<Longrightarrow>
     merge_interleave_checked N a b n i blk =
       (if unat i = unat n \<or> 8 * unat n \<le> blk_bytes blk
        then merge_interleave N a b n i blk else Inl HeapOverflow)"
proof (induction d arbitrary: i blk)
  case 0
  have "i = n" using "0.prems" by (simp add: word_unat_eq_iff)
  then show ?case
    by (subst merge_interleave_checked.simps, subst merge_interleave.simps) simp
next
  case (Suc d)
  have lt: "unat i < unat n" using Suc.prems(1) by simp
  then have ne: "i \<noteq> n" by auto
  have sa: "unat (q_size a) \<le> N" using oka by (auto simp: queue_ok_def)
  have i31: "unat i < 2 ^ 31" using lt na sa N by simp
  have su: "unat (i + 1) = unat i + 1" using i31 by (rule unat_succ)
  have ga: "queue_get_value N a i = Inr (logical N a ! unat i)"
    using lt na by (intro queue_get_value_ok [OF oka N]) (simp add: word_less_nat_alt)
  have gb: "queue_get_value N b i = Inr (logical N b ! unat i)"
    using lt nb by (intro queue_get_value_ok [OF okb N]) (simp add: word_less_nat_alt)
  have d: "d = unat n - unat (i + 1)" using Suc.prems(1) su by simp
  have le: "unat (i + 1) \<le> unat n" using lt su by simp
  note ih = Suc.IH [OF d le]
  have c0: "cell_in_block blk (unat (2 * i)) \<longleftrightarrow> 8 * unat i + 4 \<le> blk_bytes blk"
    by (simp add: cell_in_block_def unat_double [OF i31])
  have c1: "cell_in_block blk (unat (2 * i + 1)) \<longleftrightarrow> 8 * unat i + 8 \<le> blk_bytes blk"
    unfolding cell_in_block_def unat_double_succ [OF i31] by arith
  have un: "merge_interleave N a b n i blk =
      merge_interleave N a b n (i + 1)
        (store (store blk (unat (2 * i)) (logical N a ! unat i))
           (unat (2 * i + 1)) (logical N b ! unat i))"
    using ne by (subst merge_interleave.simps) (simp add: ga gb)
  show ?case
  proof (cases "8 * unat n \<le> blk_bytes blk")
    case True
    then have "8 * unat i + 4 \<le> blk_bytes blk" "8 * unat i + 8 \<le> blk_bytes blk"
      using lt by simp_all
    then show ?thesis using True ne lt
      by (subst merge_interleave_checked.simps)
        (simp add: ga gb store_checked_def c0 c1 cell_in_block_store ih blk_bytes_store un)
  next
    case False
    then have "\<not> (8 * unat i + 4 \<le> blk_bytes blk \<and> 8 * unat i + 8 \<le> blk_bytes blk
        \<and> unat (i + 1) = unat n)"
      using su by auto
    then show ?thesis using False ne lt
      by (subst merge_interleave_checked.simps)
        (auto simp: ga gb store_checked_def c0 c1 cell_in_block_store ih blk_bytes_store)
  qed
qed

lemma merge_tail_checked_eq:
  assumes N: "N < 2 ^ 31" and ok: "queue_ok N mq"
    and n: "unat n \<le> unat (q_size mq)" and m: "unat m \<le> N"
  shows "d = unat n - unat i \<Longrightarrow> unat i \<le> unat n \<Longrightarrow>
     merge_tail_checked N mq m n i blk =
       (if unat i = unat n \<or> 4 * (unat m + unat n) \<le> blk_bytes blk
        then merge_tail N mq m n i blk else Inl HeapOverflow)"
proof (induction d arbitrary: i blk)
  case 0
  have "i = n" using "0.prems" by (simp add: word_unat_eq_iff)
  then show ?case
    by (subst merge_tail_checked.simps, subst merge_tail.simps) simp
next
  case (Suc d)
  have lt: "unat i < unat n" using Suc.prems(1) by simp
  then have ne: "i \<noteq> n" by auto
  have s: "unat (q_size mq) \<le> N" using ok by (auto simp: queue_ok_def)
  have i31: "unat i < 2 ^ 31" using lt n s N by simp
  have m31: "unat m < 2 ^ 31" using m N by simp
  have su: "unat (i + 1) = unat i + 1" using i31 by (rule unat_succ)
  have mi: "unat (m + i) = unat m + unat i" using m31 i31 by (rule unat_add_small)
  have g: "queue_get_value N mq i = Inr (logical N mq ! unat i)"
    using lt n by (intro queue_get_value_ok [OF ok N]) (simp add: word_less_nat_alt)
  have d: "d = unat n - unat (i + 1)" using Suc.prems(1) su by simp
  have le: "unat (i + 1) \<le> unat n" using lt su by simp
  note ih = Suc.IH [OF d le]
  have c: "cell_in_block blk (unat (m + i)) \<longleftrightarrow> 4 * (unat m + unat i) + 4 \<le> blk_bytes blk"
    by (simp add: cell_in_block_def mi)
  have un: "merge_tail N mq m n i blk =
      merge_tail N mq m n (i + 1) (store blk (unat (m + i)) (logical N mq ! unat i))"
    using ne by (subst merge_tail.simps) (simp add: g)
  show ?case
  proof (cases "4 * (unat m + unat n) \<le> blk_bytes blk")
    case True
    then have "4 * (unat m + unat i) + 4 \<le> blk_bytes blk" using lt by simp
    then show ?thesis using True ne lt
      by (subst merge_tail_checked.simps)
        (simp add: g store_checked_def c ih blk_bytes_store un)
  next
    case False
    then have "\<not> (4 * (unat m + unat i) + 4 \<le> blk_bytes blk \<and> unat (i + 1) = unat n)"
      using su by auto
    then show ?thesis using False ne lt
      by (subst merge_tail_checked.simps)
        (auto simp: g store_checked_def c ih blk_bytes_store)
  qed
qed

lemma merge_fill_checked_cases:
  assumes N: "N < 2 ^ 31" and oka: "queue_ok N a" and okb: "queue_ok N b"
    and sum: "unat (q_size a) + unat (q_size b) \<le> N"
  shows "merge_fill_checked N a b =
     (if unat (q_size a) + unat (q_size b) = 0 then merge_fill N a b else Inl HeapOverflow)"
proof -
  define sa where "sa = unat (q_size a)"
  define sb where "sb = unat (q_size b)"
  define t where "t = sa + sb"
  define blk0 where "blk0 = \<lparr>blk_bytes = t, blk_cells = []\<rparr>"
  have s31: "sa < 2 ^ 31" "sb < 2 ^ 31" using sum N by (auto simp: sa_def sb_def)
  have tot: "unat (q_size a + q_size b) = t"
    unfolding t_def sa_def sb_def using s31 by (intro unat_add_small) (simp_all add: sa_def sb_def)
  have tN: "t \<le> N" using sum by (simp add: t_def sa_def sb_def)
  have b0: "blk_bytes blk0 = t" by (simp add: blk0_def)
  show ?thesis
  proof (cases "q_size a < q_size b")
    case True
    then have lt: "sa < sb" by (simp add: word_less_nat_alt sa_def sb_def)
    then have nge: "\<not> q_size b \<le> q_size a" by (simp add: word_le_nat_alt sa_def sb_def)
    have l1: "merge_interleave_checked N a b (q_size a) 0 blk0 =
        (if sa = 0 \<or> 8 * sa \<le> t then merge_interleave N a b (q_size a) 0 blk0
         else Inl HeapOverflow)"
      using merge_interleave_checked_eq [OF N oka okb, of "q_size a" sa 0 blk0] lt
      by (auto simp: sa_def sb_def b0)
    have u1: "merge_interleave N a b (q_size a) 0 blk0 =
        Inr (blk0\<lparr>blk_cells :=
          rev (enumerate 0 (concat (map (\<lambda>k. [logical N a ! k, logical N b ! k]) [0..<sa])))
          @ blk_cells blk0\<rparr>)"
      using merge_interleave_cells [OF N oka okb, of "q_size a" sa 0 blk0] lt
      by (simp add: sa_def sb_def)
    have l2: "merge_tail_checked N b (q_size a) (q_size b) (q_size a) blk = Inl HeapOverflow"
      if "blk_bytes blk = t" for blk
      using merge_tail_checked_eq [OF N okb, of "q_size b" "q_size a" "sb - sa" "q_size a" blk]
        lt sum that
      by (simp add: sa_def sb_def t_def)
    show ?thesis
      using True nge tN lt
      by (simp add: merge_fill_checked_def Let_def tot malloc_def l1 u1 l2 b0
          flip: blk0_def sa_def sb_def)
  next
    case False
    then have ge: "sb \<le> sa" by (simp add: word_less_nat_alt sa_def sb_def)
    then have wge: "q_size b \<le> q_size a" by (simp add: word_le_nat_alt sa_def sb_def)
    have l1: "merge_interleave_checked N a b (q_size b) 0 blk0 =
        (if sb = 0 \<or> 8 * sb \<le> t then merge_interleave N a b (q_size b) 0 blk0
         else Inl HeapOverflow)"
      using merge_interleave_checked_eq [OF N oka okb, of "q_size b" sb 0 blk0] ge
      by (auto simp: sa_def sb_def b0)
    have u1: "merge_interleave N a b (q_size b) 0 blk0 =
        Inr (blk0\<lparr>blk_cells :=
          rev (enumerate 0 (concat (map (\<lambda>k. [logical N a ! k, logical N b ! k]) [0..<sb])))
          @ blk_cells blk0\<rparr>)"
      using merge_interleave_cells [OF N oka okb, of "q_size b" sb 0 blk0] ge
      by (simp add: sa_def sb_def)
    have l2: "merge_tail_checked N a (q_size b) (q_size a) (q_size b) blk =
        (if sb = sa then merge_tail N a (q_size b) (q_size a) (q_size b) blk
         else Inl HeapOverflow)"
      if "blk_bytes blk = t" for blk
      using merge_tail_checked_eq [OF N oka, of "q_size a" "q_size b" "sa - sb" "q_size b" blk]
        ge sum that
      by (auto simp: sa_def sb_def t_def)
    show ?thesis
    proof (cases "t = 0")
      case True
      then have z: "q_size a = 0" "q_size b = 0"
        by (simp_all add: t_def sa_def sb_def unat_eq_0)
      show ?thesis
        by (simp add: merge_fill_checked_def merge_fill_def Let_def z
            merge_interleave_checked.simps merge_interleave.simps
            merge_tail_checked.simps merge_tail.simps)
    next
      case nz: False
      have mf: "merge_fill_checked N a b =
          (case merge_interleave_checked N a b (q_size b) 0 blk0 of
             Inl e \<Rightarrow> Inl e
           | Inr blk \<Rightarrow> merge_tail_checked N a (q_size b) (q_size a) (q_size b) blk)"
        using False wge tN by (simp add: merge_fill_checked_def Let_def tot malloc_def blk0_def)
      have "merge_fill_checked N a b = Inl HeapOverflow"
      proof (cases "sb = 0 \<or> 8 * sb \<le> t")
        case True
        then have "sb \<noteq> sa" using nz by (auto simp: t_def)
        then show ?thesis using True by (simp add: mf l1 u1 l2 b0)
      next
        case False
        then show ?thesis by (simp add: mf l1)
      qed
      then show ?thesis using nz by (auto simp: t_def sa_def sb_def)
    qed
  qed
qed

lemma queue_merge_checked_cases:
  assumes "N < 2 ^ 31" "queue_ok N a" "queue_ok N b"
    "unat (q_size a) + unat (q_size b) \<le> N"
  shows "queue_merge_checked N junk a b =
     (if unat (q_size a) + unat (q_size b) = 0 then queue_merge N junk a b
      else Inl HeapOverflow)"
  by (simp add: queue_merge_checked_def queue_merge_def merge_fill_checked_cases [OF assms])

text \<open>
  Claim C1. For every pair of queues whose sizes sum to at most \<open>N\<close>, \<open>queue_merge\<close>
  makes the logical sequence of the first queue the alternation \<open>self[0], other[0],
  self[1], other[1], ..\<close> followed by the rest of the longer queue, with \<open>begin = 0\<close>,
  the combined size, and the other queue empty; 1, 3, 5 and 2, 4 give 1, 2, 3, 4, 5.
  The source computes that sequence only through cells outside its scratch block
  (\<open>malloc(total_len)\<close> is \<open>total_len\<close> bytes): on the example of the claim the block
  has 5 bytes, the store to cell 0 fits and the store to cell 1 is a heap overflow, so
  the run has no defined result.
\<close>

theorem queue_merge_checked_test_merge:
  "queue_merge_checked 5 zero_junk queue_135 queue_24 = Inl HeapOverflow"
  by (simp add: queue_merge_checked_def merge_fill_checked_def Let_def malloc_def
      store_checked_def store_def cell_in_block_def queue_get_value_def
      merge_interleave_checked.simps queue_135_def queue_24_def)

lemma merge_fill_writes:
  assumes "N < 2 ^ 31" "queue_ok N a" "queue_ok N b" "unat (q_size a) + unat (q_size b) \<le> N"
  shows "\<exists>blk. merge_fill N a b = Inr blk
      \<and> blk_bytes blk = unat (q_size a) + unat (q_size b)
      \<and> map fst (blk_cells blk) = rev [0..<unat (q_size a) + unat (q_size b)]"
  by (simp add: merge_fill_ok [OF assms] length_zipped flip: rev_map)

text \<open>
  Claim C2. \<open>queue_merge\<close> builds the merged sequence in a scratch buffer sized to hold
  \<open>self.size + other.size\<close> values of 32 bits, and every store to it lies within those
  cells. The stores do go to the cells \<open>0\<close> to \<open>total_len - 1\<close> (lemma
  \<open>merge_fill_writes\<close>), but the block is \<open>malloc(total_len)\<close>: \<open>total_len\<close> bytes,
  not \<open>total_len\<close> cells of four bytes. In \<open>test_merge\<close> the block has 5 bytes and the
  cells 1 to 4 lie outside it.
\<close>

theorem merge_fill_block_too_small:
  "merge_fill 5 queue_135 queue_24 =
     Inr \<lparr>blk_bytes = 5, blk_cells = [(4, 5), (3, 4), (2, 3), (1, 2), (0, 1)]\<rparr>
   \<and> map (cell_in_block \<lparr>blk_bytes = 5, blk_cells = [(4, 5), (3, 4), (2, 3), (1, 2), (0, 1)]\<rparr>)
         [0, 1, 2, 3, 4] = [True, False, False, False, False]"
  by (simp add: merge_fill_def Let_def malloc_def store_def queue_get_value_def
      merge_interleave.simps merge_tail.simps queue_135_def queue_24_def cell_in_block_def)

text \<open>
  Claim C3, as stated: when the sizes sum to more than \<open>N\<close>, the merge fails with a
  typed failure that the caller can recover from, not a crash, and both queues keep
  their contents. \<open>queue_merge\<close> returns \<open>void\<close> and guards the sum with
  \<open>assert\<close>: with 1, 2, 3, 4 and 2, 4 in queues of capacity 5 the call aborts.
\<close>

theorem queue_merge_over_capacity_counterexample:
  "queue_merge 5 zero_junk make_initial queue_24 = Inl AssertFailed"
  by (simp add: queue_merge_def merge_fill_def Let_def make_initial_def queue_24_def)

text \<open>
  Claim C3, amended. For every pair of queues whose sizes sum to more than \<open>N\<close>,
  \<open>queue_merge\<close> does not return to its caller: the assertion
  \<open>total_len <= QUEUE_MAX_LENGTH\<close> fails, before any store to either queue.
\<close>

theorem queue_merge_over_capacity_aborts:
  assumes "N < 2 ^ 31" "queue_ok N into" "queue_ok N other"
    "N < unat (q_size into) + unat (q_size other)"
  shows "queue_merge N junk into other = Inl AssertFailed"
proof -
  have "unat (q_size into) < 2 ^ 31" "unat (q_size other) < 2 ^ 31"
    using assms(1,2,3) by (auto simp: queue_ok_def)
  then have "unat (q_size into + q_size other) = unat (q_size into) + unat (q_size other)"
    by (rule unat_add_small)
  then show ?thesis using assms(4) by (simp add: queue_merge_def merge_fill_def Let_def)
qed

theorem queue_merge_over_capacity_aborts_witness:
  "(5::nat) < 2 ^ 31 \<and> queue_ok 5 make_initial \<and> queue_ok 5 queue_24
   \<and> 5 < unat (q_size make_initial) + unat (q_size queue_24)
   \<and> queue_merge 5 zero_junk make_initial queue_24 = Inl AssertFailed"
proof -
  have h: "(5::nat) < 2 ^ 31" "queue_ok 5 make_initial" "queue_ok 5 queue_24"
    "5 < unat (q_size make_initial) + unat (q_size queue_24)"
    by (simp_all add: queue_ok_def make_initial_def queue_24_def)
  show ?thesis using h queue_merge_over_capacity_aborts [OF h, of zero_junk] by simp
qed

section \<open>The invariant on reachable states\<close>

lemma queue_init_ok: "0 < N \<Longrightarrow> queue_ok N (queue_init N)"
  by (simp add: queue_ok_def queue_init_def)

lemma reachable_ok:
  assumes N: "0 < N" "N < 2 ^ 31"
  shows "reachable N q \<Longrightarrow> queue_ok N q"
proof (induction rule: reachable.induct)
  case init
  show ?case using N(1) by (rule queue_init_ok)
next
  case (push_back q v rc q')
  show ?case
  proof (cases "unat (q_size q) = N")
    case True
    then show ?thesis using push_back by (simp add: queue_push_back_full)
  next
    case False
    from queue_push_back_ok(2) [OF push_back.IH N False, of v] push_back.hyps(2)
    show ?thesis by simp
  qed
next
  case (pop_back q rc q' out)
  show ?case
  proof (cases "q_size q = 0")
    case True
    then show ?thesis using pop_back by (simp add: queue_pop_back_empty)
  next
    case False
    from queue_pop_back_ok [OF pop_back.IH N False] pop_back.hyps(2)
    show ?thesis by auto
  qed
next
  case (pop_front q rc q' out)
  show ?case
  proof (cases "q_size q = 0")
    case True
    then show ?thesis using pop_front by (simp add: queue_pop_front_empty)
  next
    case False
    from queue_pop_front_ok [OF pop_front.IH N False] pop_front.hyps(2)
    show ?thesis by auto
  qed
next
  case (find q v r)
  then show ?case by simp
next
  case (remove q index q')
  from queue_remove_ok [OF N remove.IH remove.hyps(2)] remove.hyps(3)
  show ?case by auto
next
  case (merge_into a b junk a' b')
  from queue_merge_ok [OF N merge_into.IH merge_into.hyps(3), of junk] merge_into.hyps(4)
  show ?case by auto
next
  case (merge_from a b junk a' b')
  from queue_merge_ok [OF N merge_from.IH merge_from.hyps(3), of junk] merge_from.hyps(4)
  show ?case by auto
qed

text \<open>
  Claim C5. For every state reachable from an initialised queue by calls of
  \<open>queue_push_back\<close>, \<open>queue_pop_back\<close>, \<open>queue_pop_front\<close>, \<open>queue_find\<close>,
  \<open>queue_remove\<close> and \<open>queue_merge\<close> that respect the preconditions of the last
  two, \<open>size \<le> N\<close> and \<open>begin < N\<close> hold, also when \<open>size = 0\<close> (both fields are
  unsigned, so they are never negative).
\<close>

theorem reachable_invariant:
  assumes "0 < N" "N < 2 ^ 31" "reachable N q"
  shows "unat (q_size q) \<le> N \<and> unat (q_begin q) < N"
  using reachable_ok [OF assms] by (simp add: queue_ok_def)

theorem reachable_invariant_witness:
  "(0::nat) < 5 \<and> (5::nat) < 2 ^ 31
   \<and> reachable 5 \<lparr>q_begin = 4, q_size = 0, q_array = [0, 0, 0, 0, 7]\<rparr>
   \<and> unat (q_size \<lparr>q_begin = 4, q_size = 0, q_array = [0, 0, 0, 0, 7]\<rparr>) \<le> 5
   \<and> unat (q_begin \<lparr>q_begin = 4, q_size = 0, q_array = [0, 0, 0, 0, 7 :: u32]\<rparr>) < 5"
proof -
  have h: "(0::nat) < 5" "(5::nat) < 2 ^ 31" by simp_all
  have five: "(5::nat) = Suc (Suc (Suc (Suc (Suc 0))))" by simp
  have i: "queue_init 5 = \<lparr>q_begin = 0, q_size = 0, q_array = [0, 0, 0, 0, 0]\<rparr>"
    unfolding queue_init_def five by simp
  have p: "queue_push_back 5 (queue_init 5) 7
      = (0, \<lparr>q_begin = 4, q_size = 1, q_array = [0, 0, 0, 0, 7]\<rparr>)"
    unfolding i by (simp add: queue_push_back_def Let_def)
  have f: "queue_pop_front 5 \<lparr>q_begin = 4, q_size = 1, q_array = [0, 0, 0, 0, 7]\<rparr>
      = Inr (0, \<lparr>q_begin = 4, q_size = 0, q_array = [0, 0, 0, 0, 7]\<rparr>, Some 7)"
    by (simp add: queue_pop_front_def queue_get_value_def)
  have r: "reachable 5 \<lparr>q_begin = 4, q_size = 0, q_array = [0, 0, 0, 0, 7]\<rparr>"
    by (rule reachable.pop_front [OF reachable.push_back [OF reachable.init p] f])
  show ?thesis using h r reachable_invariant [OF h r] by simp
qed

section \<open>The command layer\<close>

text \<open>
  Claim C9. For every non-empty queue, \<open>cli_dequeue\<close> built with \<open>QUEUE_MODE_FIFO\<close>
  calls \<open>queue_pop_back\<close> and so removes and prints the element at offset 0, the most
  recently pushed one; built with \<open>QUEUE_MODE_LIFO\<close>, the default, it calls
  \<open>queue_pop_front\<close> and removes and prints the element at offset \<open>size - 1\<close>, the
  oldest one. Each mode removes in the order that the other mode's name says. The last
  part reads the offsets against a history: in a queue filled by pushing \<open>vs\<close> onto
  an empty one, offset 0 holds the last value pushed and offset \<open>size - 1\<close> the first.
\<close>

theorem cli_dequeue_mode_swapped:
  assumes "0 < N" "N < 2 ^ 31" "2 \<le> argc"
    "cli_get_queue_number strtol (argv ! 1) = n" "n \<noteq> - 1"
    "queue_ok N (queues ! nat n)" "q_size (queues ! nat n) \<noteq> 0"
  shows "QUEUE_MODE = QUEUE_MODE_LIFO
     \<and> (\<exists>q'. queue_pop_back N (queues ! nat n)
               = (0, q', Some (logical N (queues ! nat n) ! 0))
           \<and> cli_dequeue QUEUE_MODE_FIFO N strtol argc argv queues
               = Inr (0, queues[nat n := q'], Some (logical N (queues ! nat n) ! 0))
           \<and> logical N q' = tl (logical N (queues ! nat n)))
     \<and> (\<exists>q'. queue_pop_front N (queues ! nat n)
               = Inr (0, q', Some (logical N (queues ! nat n) ! (unat (q_size (queues ! nat n)) - 1)))
           \<and> cli_dequeue QUEUE_MODE_LIFO N strtol argc argv queues
               = Inr (0, queues[nat n := q'],
                      Some (logical N (queues ! nat n) ! (unat (q_size (queues ! nat n)) - 1)))
           \<and> logical N q' = butlast (logical N (queues ! nat n)))
     \<and> (\<forall>q0 vs. queue_ok N q0 \<and> q_size q0 = 0 \<and> vs \<noteq> [] \<and> length vs \<le> N
             \<and> queues ! nat n = snd (push_all N q0 vs) \<longrightarrow>
           logical N (queues ! nat n) ! 0 = last vs
           \<and> logical N (queues ! nat n) ! (unat (q_size (queues ! nat n)) - 1) = hd vs)"
proof -
  define q where "q = queues ! nat n"
  have ok: "queue_ok N q" and ne: "q_size q \<noteq> 0" using assms(6,7) by (simp_all add: q_def)
  have nonempty: "logical N q \<noteq> []"
    using ne length_logical [of N q] by (auto simp: unat_eq_0)
  have hd: "hd (logical N q) = logical N q ! 0" using nonempty by (simp add: hd_conv_nth)
  have last: "last (logical N q) = logical N q ! (unat (q_size q) - 1)"
    using nonempty by (simp add: last_conv_nth length_logical)
  from queue_pop_back_ok [OF ok assms(1,2) ne] obtain qb where
    pb: "queue_pop_back N q = (0, qb, Some (logical N q ! 0))"
    and lb: "logical N qb = tl (logical N q)" by (auto simp: hd)
  from queue_pop_front_ok [OF ok assms(1,2) ne] obtain qf where
    pf: "queue_pop_front N q = Inr (0, qf, Some (logical N q ! (unat (q_size q) - 1)))"
    and lf: "logical N qf = butlast (logical N q)" by (auto simp: last)
  have fifo: "cli_dequeue QUEUE_MODE_FIFO N strtol argc argv queues
      = Inr (0, queues[nat n := qb], Some (logical N q ! 0))"
    using assms(3,4,5) by (simp add: cli_dequeue_def Let_def pb flip: q_def)
  have lifo: "cli_dequeue QUEUE_MODE_LIFO N strtol argc argv queues
      = Inr (0, queues[nat n := qf], Some (logical N q ! (unat (q_size q) - 1)))"
    using assms(3,4,5) by (simp add: cli_dequeue_def Let_def pf flip: q_def)
  have hist: "logical N q ! 0 = last vs \<and> logical N q ! (unat (q_size q) - 1) = hd vs"
    if "queue_ok N q0" "q_size q0 = 0" "vs \<noteq> []" "length vs \<le> N"
      "q = snd (push_all N q0 vs)" for q0 vs
  proof -
    have room: "unat (q_size q0) + length vs \<le> N" using that(2,4) by simp
    have l: "logical N q = rev vs"
      using push_all_ok [OF assms(1,2) that(1) room] that(2,5) by (simp add: logical_empty)
    then have "unat (q_size q) = length vs" using length_logical [of N q] by simp
    then show ?thesis using that(3) by (simp add: l hd_rev [symmetric] hd_conv_nth
          rev_nth last_conv_nth hd_conv_nth)
  qed
  show ?thesis
    unfolding q_def [symmetric] using pb lb fifo pf lf lifo hist
    by (simp add: QUEUE_MODE_def)
qed

theorem cli_dequeue_mode_swapped_witness:
  "(0::nat) < 5 \<and> (5::nat) < 2 ^ 31 \<and> (2::int) \<le> 2
   \<and> cli_get_queue_number strtol_digit ([''6'', ''1''] ! 1) = 0
   \<and> push_all 5 (queue_init 5) [10, 20, 30]
       = ([0, 0, 0], \<lparr>q_begin = 2, q_size = 3, q_array = [0, 0, 30, 20, 10]\<rparr>)
   \<and> cli_dequeue QUEUE_MODE_FIFO 5 strtol_digit 2 [''6'', ''1'']
         [\<lparr>q_begin = 2, q_size = 3, q_array = [0, 0, 30, 20, 10]\<rparr>, queue_init 5]
       = Inr (0, [\<lparr>q_begin = 3, q_size = 2, q_array = [0, 0, 30, 20, 10]\<rparr>, queue_init 5],
              Some 30)
   \<and> cli_dequeue QUEUE_MODE_LIFO 5 strtol_digit 2 [''6'', ''1'']
         [\<lparr>q_begin = 2, q_size = 3, q_array = [0, 0, 30, 20, 10]\<rparr>, queue_init 5]
       = Inr (0, [\<lparr>q_begin = 2, q_size = 2, q_array = [0, 0, 30, 20, 10]\<rparr>, queue_init 5],
              Some 10)
   \<and> logical 5 \<lparr>q_begin = 2, q_size = 3, q_array = [0, 0, 30, 20, 10]\<rparr> ! 0
       = last [10, 20, 30]
   \<and> logical 5 \<lparr>q_begin = 2, q_size = 3, q_array = [0, 0, 30, 20, 10]\<rparr> ! 2
       = hd [10, 20, 30]"
proof -
  let ?q = "\<lparr>q_begin = 2, q_size = 3, q_array = [0, 0, 30, 20, 10 :: u32]\<rparr>"
  have five: "(5::nat) = Suc (Suc (Suc (Suc (Suc 0))))" by simp
  have i: "queue_init 5 = \<lparr>q_begin = 0, q_size = 0, q_array = [0, 0, 0, 0, 0]\<rparr>"
    unfolding queue_init_def five by simp
  have p: "push_all 5 (queue_init 5) [10, 20, 30] = ([0, 0, 0], ?q)"
    unfolding i by (simp add: queue_push_back_def Let_def)
  have n1: "cli_get_queue_number strtol_digit ''1'' = 0"
    by (simp add: cli_get_queue_number_def strtol_digit_def)
  then have n: "cli_get_queue_number strtol_digit ([''6'', ''1''] ! 1) = 0" by simp
  have h: "(0::nat) < 5" "(5::nat) < 2 ^ 31" "(2::int) \<le> 2"
    "cli_get_queue_number strtol_digit ([''6'', ''1''] ! 1) = 0" "(0::int) \<noteq> - 1"
    "queue_ok 5 ([?q, queue_init 5] ! nat 0)" "q_size ([?q, queue_init 5] ! nat 0) \<noteq> 0"
    by (simp_all add: n1 queue_ok_def)
  have l: "logical 5 ?q = [30, 20, 10]" by (simp add: logical_def upt_rec)
  note t = cli_dequeue_mode_swapped [OF h]
  have fifo: "cli_dequeue QUEUE_MODE_FIFO 5 strtol_digit 2 [''6'', ''1''] [?q, queue_init 5]
      = Inr (0, [\<lparr>q_begin = 3, q_size = 2, q_array = [0, 0, 30, 20, 10]\<rparr>, queue_init 5],
             Some 30)"
    using t by (simp add: l n1 queue_pop_back_def)
  have lifo: "cli_dequeue QUEUE_MODE_LIFO 5 strtol_digit 2 [''6'', ''1''] [?q, queue_init 5]
      = Inr (0, [\<lparr>q_begin = 2, q_size = 2, q_array = [0, 0, 30, 20, 10]\<rparr>, queue_init 5],
             Some 10)"
    using t by (simp add: l n1 queue_pop_front_def queue_get_value_def)
  have hist: "logical 5 ?q ! 0 = last [10, 20, 30] \<and> logical 5 ?q ! 2 = hd [10, 20, 30]"
    using t by (simp add: l)
  show ?thesis using h(1,2,3) n1 p fifo lifo hist by simp
qed



end
